theory Spec2Isabelle
  imports Main
begin

section \<open>Messages\<close>

text \<open>
  The \<open>Message\<close> type is imported by \<open>ContextManager.tsx\<close> from \<open>types/message\<close>. The
  fields below are the ones the component reads or writes: the error marker built in
  the \<open>catch\<close> block sets all six of them. A content block carries its discriminant
  \<open>type\<close>; \<open>msg\<close> is the payload of a \<open>summarizationRequested\<close> block.
\<close>

record message_content =
  type :: string
  msg :: string

record message =
  id_msg :: string
  role :: string
  created :: nat
  content :: "message_content list"
  display :: bool
  sendToLLM :: bool

section \<open>State of the provider, thrown values, observable calls\<close>

text \<open>The two \<open>useState\<close> cells of \<open>ContextManagerProvider\<close>.\<close>

record cm_state =
  isCompacting :: bool
  compactionError :: "string option"

text \<open>
  A value caught by \<open>catch (err)\<close>: either an instance of \<open>Error\<close>, with its
  \<open>message\<close>, or any other value.
\<close>

datatype thrown = ErrorObject string | OtherThrown

text \<open>
  The function handed to \<open>performCompaction\<close> as \<open>append\<close>: the caller's own callback,
  or the arrow function \<open>() => {}\<close> that \<open>handleManualCompaction\<close> substitutes.
\<close>

datatype append_fn = CallerAppend | NoOpAppend

text \<open>
  Every call that leaves the component, in the order the code makes it. A
  \<open>SetTimeout f m d\<close> is \<open>setTimeout(() => f(m), d)\<close>; \<open>Append m\<close> is the caller's
  \<open>append\<close> being run with \<open>m\<close>. The type is parameterised by what stands for an array
  of messages and for a message: the values themselves, or their addresses in a store.
\<close>

datatype ('arr, 'obj) call =
    ClearAlerts
  | SetIsCompacting bool
  | SetCompactionError "string option"
  | ManageContextFromBackend 'arr string
  | ConsoleError string thrown
  | SetAncestorMessages 'arr
  | SetMessages 'arr
  | SetTimeout append_fn 'obj nat
  | Append 'obj

type_synonym event = "(message list, message) call"

text \<open>How the promise returned by an \<open>async\<close> function settles.\<close>

datatype outcome = Resolved | Rejected thrown

text \<open>How a call of one of the caller's callbacks ends.\<close>

datatype completion = Returns | Throws thrown

text \<open>
  What the outside world answers during one run.
  \<^item> \<open>summaryResponse\<close>: how \<open>await manageContextFromBackend(...)\<close> ends, with the
    \<open>messages\<close> of the response, or with a thrown value (the call throws or its promise
    rejects).
  \<^item> The conversion function imported from \<open>./index\<close>; it may throw.
  \<^item> The two readings of \<open>Date.now()\<close> taken in the \<open>catch\<close> block, in milliseconds.
  \<^item> What the caller's callbacks do when they are called: \<open>clearAlerts\<close>;
    \<open>setAncestorMessages\<close> on a given list; \<open>setMessages\<close> on a given list when it has
    been called \<open>n\<close> times before in the run.

  The two state setters of \<open>useState\<close>, \<open>console.error\<close>, \<open>setTimeout\<close> and
  \<open>Date.now\<close> belong to the platform and return. \<open>append\<close> runs later, from the
  timer, outside the promise of the run.
\<close>

record 'api world =
  summaryResponse :: "thrown + 'api list"
  convertApiMessageToFrontendMessage :: "'api \<Rightarrow> bool \<Rightarrow> bool \<Rightarrow> thrown + message"
  dateNow_id :: nat
  dateNow_created :: nat
  clearAlerts_does :: completion
  setAncestorMessages_does :: "message list \<Rightarrow> completion"
  setMessages_does :: "nat \<Rightarrow> message list \<Rightarrow> completion"

section \<open>hasCompactionMarker\<close>

definition hasCompactionMarker :: "message \<Rightarrow> bool" where
  "hasCompactionMarker message =
     list_ex (\<lambda>c. type c = ''summarizationRequested'') (content message)"

section \<open>Parts of performCompaction\<close>

text \<open>
  \<open>summaryResponse.messages.map((apiMessage, index) => ...)\<close>: the callback runs on
  the elements from left to right, and the first conversion that throws ends the map.
\<close>

fun convertMessages ::
  "('api \<Rightarrow> bool \<Rightarrow> bool \<Rightarrow> thrown + message) \<Rightarrow> nat \<Rightarrow> 'api list \<Rightarrow> thrown + message list"
where
  "convertMessages conv index [] = Inr []"
| "convertMessages conv index (apiMessage # rest) =
     (case (if index = 0 then conv apiMessage True False
            else if index = 1 then conv apiMessage False True
            else conv apiMessage False True) of
        Inl err \<Rightarrow> Inl err
      | Inr m \<Rightarrow>
          (case convertMessages conv (Suc index) rest of
             Inl err \<Rightarrow> Inl err
           | Inr ms \<Rightarrow> Inr (m # ms)))"

text \<open>\<open>xs[i]\<close> on a JavaScript array: \<open>undefined\<close> past the end.\<close>

definition at_index :: "'a list \<Rightarrow> nat \<Rightarrow> 'a option" where
  "at_index xs i = (if i < length xs then Some (xs ! i) else None)"

text \<open>\<open>messages.map((msg) => ({ ...msg, display: true, sendToLLM: false }))\<close>\<close>

definition ancestorMessages :: "message list \<Rightarrow> message list" where
  "ancestorMessages messages =
     map (\<lambda>msg. msg\<lparr>display := True, sendToLLM := False\<rparr>) messages"

text \<open>A number inside a template literal is written in decimal.\<close>

definition digit :: "nat \<Rightarrow> char" where
  "digit d = char_of (d + 48)"

function decimal :: "nat \<Rightarrow> string" where
  "decimal n = (if n div 10 = 0 then [digit n] else decimal (n div 10) @ [digit (n mod 10)])"
  by pat_completeness auto
termination
  by (relation "measure id") auto

definition errorMarker :: "nat \<Rightarrow> nat \<Rightarrow> message" where
  "errorMarker now_id now_created =
     \<lparr> id_msg = ''compaction-error-'' @ decimal now_id,
       role = ''assistant'',
       created = now_created div 1000,
       content = [\<lparr> type = ''summarizationRequested'',
                    msg = ''Compaction failed. Please try again or start a new session.'' \<rparr>],
       display = True,
       sendToLLM = False \<rparr>"

text \<open>\<open>err instanceof Error ? err.message : 'Unknown error during compaction'\<close>\<close>

definition errorText :: "thrown \<Rightarrow> string" where
  "errorText err =
     (case err of
        ErrorObject m \<Rightarrow> m
      | OtherThrown \<Rightarrow> ''Unknown error during compaction'')"

text \<open>
  The statements of \<open>performCompaction\<close> that run before the \<open>await\<close> suspends it: the
  two state resets and the call of the backend.
\<close>

definition performCompaction_begin :: "message list \<Rightarrow> cm_state \<Rightarrow> cm_state \<times> event list" where
  "performCompaction_begin messages s =
     (s\<lparr>isCompacting := True, compactionError := None\<rparr>,
      [SetIsCompacting True, SetCompactionError None,
       ManageContextFromBackend messages ''summarize''])"

section \<open>Reading a trace\<close>

fun setMessagesCalls :: "('arr, 'obj) call list \<Rightarrow> 'arr list" where
  "setMessagesCalls [] = []"
| "setMessagesCalls (SetMessages ms # tr) = ms # setMessagesCalls tr"
| "setMessagesCalls (e # tr) = setMessagesCalls tr"

fun setAncestorMessagesCalls :: "('arr, 'obj) call list \<Rightarrow> 'arr list" where
  "setAncestorMessagesCalls [] = []"
| "setAncestorMessagesCalls (SetAncestorMessages ms # tr) = ms # setAncestorMessagesCalls tr"
| "setAncestorMessagesCalls (e # tr) = setAncestorMessagesCalls tr"

fun timeouts :: "('arr, 'obj) call list \<Rightarrow> (append_fn \<times> 'obj \<times> nat) list" where
  "timeouts [] = []"
| "timeouts (SetTimeout f m d # tr) = (f, m, d) # timeouts tr"
| "timeouts (e # tr) = timeouts tr"

section \<open>The state as the calls leave it\<close>

text \<open>The provider state after a sequence of calls, read off the setter calls among them.\<close>

fun applyEvent :: "cm_state \<Rightarrow> event \<Rightarrow> cm_state" where
  "applyEvent s (SetIsCompacting b) = s\<lparr>isCompacting := b\<rparr>"
| "applyEvent s (SetCompactionError e) = s\<lparr>compactionError := e\<rparr>"
| "applyEvent s ev = s"

definition stateAfter :: "event list \<Rightarrow> cm_state \<Rightarrow> cm_state" where
  "stateAfter tr s = foldl applyEvent s tr"

section \<open>performCompaction\<close>

text \<open>
  The optional block that hands over the ancestors. The callback is given as its
  presence; when it throws, the \<open>try\<close> block ends there.
\<close>

definition ancestorBlock ::
  "'api world \<Rightarrow> message list \<Rightarrow> bool \<Rightarrow> thrown option \<times> event list"
where
  "ancestorBlock w messages setAncestorMessages =
     (if setAncestorMessages then
        (case setAncestorMessages_does w (ancestorMessages messages) of
           Returns \<Rightarrow> (None, [SetAncestorMessages (ancestorMessages messages)])
         | Throws err \<Rightarrow> (Some err, [SetAncestorMessages (ancestorMessages messages)]))
      else (None, []))"

text \<open>
  The rest of the \<open>try\<close> block once every returned message has been converted. The
  first component is the value thrown, if a callback threw.
\<close>

definition afterConversion ::
  "'api world \<Rightarrow> message list \<Rightarrow> append_fn \<Rightarrow> bool \<Rightarrow> message list \<Rightarrow> cm_state
     \<Rightarrow> thrown option \<times> cm_state \<times> event list"
where
  "afterConversion w messages append_cb setAncestorMessages convertedMessages s =
     (case ancestorBlock w messages setAncestorMessages of
        (Some err, calls) \<Rightarrow> (Some err, s, calls)
      | (None, calls) \<Rightarrow>
          (case setMessages_does w 0 convertedMessages of
             Throws err \<Rightarrow> (Some err, s, calls @ [SetMessages convertedMessages])
           | Returns \<Rightarrow>
               (None,
                s\<lparr>isCompacting := False\<rparr>,
                calls
                @ [SetMessages convertedMessages]
                @ (case at_index convertedMessages 2 of
                     Some continuationMessage \<Rightarrow>
                       [SetTimeout append_cb continuationMessage 100]
                   | None \<Rightarrow> [])
                @ [SetIsCompacting False])))"

text \<open>The \<open>try\<close> block from the point where the \<open>await\<close> ends.\<close>

definition tryBlock ::
  "'api world \<Rightarrow> message list \<Rightarrow> append_fn \<Rightarrow> bool \<Rightarrow> cm_state
     \<Rightarrow> thrown option \<times> cm_state \<times> event list"
where
  "tryBlock w messages append_cb setAncestorMessages s =
     (case summaryResponse w of
        Inl err \<Rightarrow> (Some err, s, [])
      | Inr apiMessages \<Rightarrow>
          (case convertMessages (convertApiMessageToFrontendMessage w) 0 apiMessages of
             Inl err \<Rightarrow> (Some err, s, [])
           | Inr convertedMessages \<Rightarrow>
               afterConversion w messages append_cb setAncestorMessages convertedMessages s))"

text \<open>
  The \<open>catch\<close> block, entered with the thrown value when \<open>setMessages\<close> has been called
  \<open>earlier\<close> times. The call of \<open>setMessages\<close> comes before \<open>setIsCompacting(false)\<close>:
  when it throws, the promise rejects and the last statement is not reached.
\<close>

definition catchBlock ::
  "'api world \<Rightarrow> message list \<Rightarrow> thrown \<Rightarrow> nat \<Rightarrow> cm_state \<Rightarrow> outcome \<times> cm_state \<times> event list"
where
  "catchBlock w messages err earlier s =
     (case setMessages_does w earlier
             (messages @ [errorMarker (dateNow_id w) (dateNow_created w)]) of
        Returns \<Rightarrow>
          (Resolved,
           s\<lparr>compactionError := Some (errorText err), isCompacting := False\<rparr>,
           [ConsoleError ''Error during compaction:'' err,
            SetCompactionError (Some (errorText err)),
            SetMessages (messages @ [errorMarker (dateNow_id w) (dateNow_created w)]),
            SetIsCompacting False])
      | Throws e \<Rightarrow>
          (Rejected e,
           s\<lparr>compactionError := Some (errorText err)\<rparr>,
           [ConsoleError ''Error during compaction:'' err,
            SetCompactionError (Some (errorText err)),
            SetMessages (messages @ [errorMarker (dateNow_id w) (dateNow_created w)])]))"

text \<open>What runs after the promise of the backend has settled.\<close>

definition performCompaction_settled ::
  "'api world \<Rightarrow> message list \<Rightarrow> append_fn \<Rightarrow> bool \<Rightarrow> cm_state \<Rightarrow> outcome \<times> cm_state \<times> event list"
where
  "performCompaction_settled w messages append_cb setAncestorMessages s =
     (case tryBlock w messages append_cb setAncestorMessages s of
        (None, s1, calls) \<Rightarrow> (Resolved, s1, calls)
      | (Some err, s1, calls) \<Rightarrow>
          (case catchBlock w messages err (length (setMessagesCalls calls)) s1 of
             (out, s2, later) \<Rightarrow> (out, s2, calls @ later)))"

text \<open>
  \<open>isManual\<close> is the parameter \<open>_isManual\<close>, which the body never reads.
\<close>

definition performCompaction ::
  "'api world \<Rightarrow> message list \<Rightarrow> append_fn \<Rightarrow> bool \<Rightarrow> bool \<Rightarrow> cm_state
     \<Rightarrow> outcome \<times> cm_state \<times> event list"
where
  "performCompaction w messages append_cb isManual setAncestorMessages s =
     (case performCompaction_begin messages s of
        (s1, before) \<Rightarrow>
          (case performCompaction_settled w messages append_cb setAncestorMessages s1 of
             (out, s2, after) \<Rightarrow> (out, s2, before @ after)))"

section \<open>The two entry points\<close>


text \<open>
  \<open>append\<close> and \<open>clearAlerts\<close> are optional: each is given as its presence.
  \<open>clearAlerts()\<close> is called outside any \<open>try\<close>: when it throws, the promise rejects
  and \<open>performCompaction\<close> is not called. \<open>append || (() => {})\<close> selects the function
  passed on.
\<close>

definition handleManualCompaction ::
  "'api world \<Rightarrow> message list \<Rightarrow> bool \<Rightarrow> bool \<Rightarrow> bool \<Rightarrow> cm_state
     \<Rightarrow> outcome \<times> cm_state \<times> event list"
where
  "handleManualCompaction w messages append_cb clearAlerts setAncestorMessages s =
     (if clearAlerts then
        (case clearAlerts_does w of
           Throws e \<Rightarrow> (Rejected e, s, [ClearAlerts])
         | Returns \<Rightarrow>
             (case performCompaction w messages
                     (if append_cb then CallerAppend else NoOpAppend) True
                     setAncestorMessages s of
                (out, s', tr) \<Rightarrow> (out, s', ClearAlerts # tr)))
      else performCompaction w messages (if append_cb then CallerAppend else NoOpAppend) True
             setAncestorMessages s)"

section \<open>Timers\<close>

text \<open>
  What a scheduled callback does when its timer fires: \<open>append(continuationMessage)\<close>
  runs the caller's callback, the substituted arrow function does nothing.
\<close>

fun fire :: "('arr, 'obj) call \<Rightarrow> ('arr, 'obj) call list" where
  "fire (SetTimeout CallerAppend m d) = [Append m]"
| "fire (SetTimeout NoOpAppend m d) = []"
| "fire e = []"

definition fireTimers :: "('arr, 'obj) call list \<Rightarrow> ('arr, 'obj) call list" where
  "fireTimers tr = concat (map fire tr)"

section \<open>The same run over a store of objects\<close>

text \<open>
  JavaScript arrays and objects are references. To tell a fresh array from the
  caller's own, and a copy of a message from the message, the run is written once more
  over an explicit store: message objects and arrays of references to them live at
  addresses, and \<open>limit\<close> is the next address to be handed out. The backend is
  handed the caller's array and the conversion function a returned message; both only
  read what they are given, and each converted message is a new object. The caller's
  callbacks are handed arrays; whether they return or throw is what the world says
  for the messages the array holds.
\<close>

type_synonym address = nat

record store =
  objectAt :: "address \<rightharpoonup> message"
  arrayAt :: "address \<rightharpoonup> address list"
  limit :: address

type_synonym store_event = "(address, address) call"

text \<open>Creating an object (an object literal, a spread copy) or an array.\<close>

definition newObject :: "message \<Rightarrow> store \<Rightarrow> address \<times> store" where
  "newObject m h =
     (limit h, h\<lparr>objectAt := (objectAt h)(limit h \<mapsto> m), limit := Suc (limit h)\<rparr>)"

definition newArray :: "address list \<Rightarrow> store \<Rightarrow> address \<times> store" where
  "newArray rs h =
     (limit h, h\<lparr>arrayAt := (arrayAt h)(limit h \<mapsto> rs), limit := Suc (limit h)\<rparr>)"

fun newObjects :: "message list \<Rightarrow> store \<Rightarrow> address list \<times> store" where
  "newObjects [] h = ([], h)"
| "newObjects (m # ms) h =
     (case newObject m h of
        (r, h1) \<Rightarrow> (case newObjects ms h1 of (rs, h2) \<Rightarrow> (r # rs, h2)))"

text \<open>
  Reading the messages of an array. \<open>None\<close> stands for a reference that points at
  nothing, which running code never holds.
\<close>

fun readObjects :: "store \<Rightarrow> address list \<Rightarrow> message list option" where
  "readObjects h [] = Some []"
| "readObjects h (r # rs) =
     (case objectAt h r of
        None \<Rightarrow> None
      | Some m \<Rightarrow> (case readObjects h rs of None \<Rightarrow> None | Some ms \<Rightarrow> Some (m # ms)))"

definition readArray :: "store \<Rightarrow> address \<Rightarrow> message list option" where
  "readArray h a = (case arrayAt h a of None \<Rightarrow> None | Some rs \<Rightarrow> readObjects h rs)"

text \<open>
  The \<open>map\<close> over the response: each converted message is a new object; the objects
  made before a conversion throws stay in the store.
\<close>

fun convertMessages_store ::
  "('api \<Rightarrow> bool \<Rightarrow> bool \<Rightarrow> thrown + message) \<Rightarrow> nat \<Rightarrow> 'api list \<Rightarrow> store
     \<Rightarrow> (thrown + address list) \<times> store"
where
  "convertMessages_store conv index [] h = (Inr [], h)"
| "convertMessages_store conv index (apiMessage # rest) h =
     (case (if index = 0 then conv apiMessage True False
            else if index = 1 then conv apiMessage False True
            else conv apiMessage False True) of
        Inl err \<Rightarrow> (Inl err, h)
      | Inr m \<Rightarrow>
          (case newObject m h of
             (r, h1) \<Rightarrow>
               (case convertMessages_store conv (Suc index) rest h1 of
                  (Inl err, h2) \<Rightarrow> (Inl err, h2)
                | (Inr rs, h2) \<Rightarrow> (Inr (r # rs), h2))))"

text \<open>
  The optional block that hands over the ancestors:
  \<open>messages.map((msg) => ({ ...msg, display: true, sendToLLM: false }))\<close> reads every
  message of the caller's array and makes a new object for each, and a new array of
  them.
\<close>

definition ancestorBlock_store ::
  "'api world \<Rightarrow> address \<Rightarrow> bool \<Rightarrow> store
     \<Rightarrow> (thrown option \<times> store_event list \<times> store) option"
where
  "ancestorBlock_store w messages setAncestorMessages h =
     (if setAncestorMessages then
        (case readArray h messages of
           None \<Rightarrow> None
         | Some ms \<Rightarrow>
             (case newObjects (ancestorMessages ms) h of
                (copies, h1) \<Rightarrow>
                  (case newArray copies h1 of
                     (ancestors, h2) \<Rightarrow>
                       Some ((case setAncestorMessages_does w (ancestorMessages ms) of
                                Returns \<Rightarrow> None
                              | Throws err \<Rightarrow> Some err),
                             [SetAncestorMessages ancestors], h2))))
      else Some (None, [], h))"

text \<open>
  The rest of the \<open>try\<close> block once every returned message has been converted; the
  \<open>map\<close> ends by making the array of the converted messages.
\<close>

definition afterConversion_store ::
  "'api world \<Rightarrow> address \<Rightarrow> append_fn \<Rightarrow> bool \<Rightarrow> address list \<Rightarrow> cm_state \<Rightarrow> store
     \<Rightarrow> (thrown option \<times> cm_state \<times> store_event list \<times> store) option"
where
  "afterConversion_store w messages append_cb setAncestorMessages converted s h =
     (case newArray converted h of
        (convertedMessages, h1) \<Rightarrow>
          (case ancestorBlock_store w messages setAncestorMessages h1 of
             None \<Rightarrow> None
           | Some (Some err, calls, h2) \<Rightarrow> Some (Some err, s, calls, h2)
           | Some (None, calls, h2) \<Rightarrow>
               (case readArray h2 convertedMessages of
                  None \<Rightarrow> None
                | Some cs \<Rightarrow>
                    (case setMessages_does w 0 cs of
                       Throws err \<Rightarrow>
                         Some (Some err, s, calls @ [SetMessages convertedMessages], h2)
                     | Returns \<Rightarrow>
                         Some (None,
                               s\<lparr>isCompacting := False\<rparr>,
                               calls
                               @ [SetMessages convertedMessages]
                               @ (case at_index converted 2 of
                                    Some continuationMessage \<Rightarrow>
                                      [SetTimeout append_cb continuationMessage 100]
                                  | None \<Rightarrow> [])
                               @ [SetIsCompacting False],
                               h2)))))"

definition tryBlock_store ::
  "'api world \<Rightarrow> address \<Rightarrow> append_fn \<Rightarrow> bool \<Rightarrow> cm_state \<Rightarrow> store
     \<Rightarrow> (thrown option \<times> cm_state \<times> store_event list \<times> store) option"
where
  "tryBlock_store w messages append_cb setAncestorMessages s h =
     (case summaryResponse w of
        Inl err \<Rightarrow> Some (Some err, s, [], h)
      | Inr apiMessages \<Rightarrow>
          (case convertMessages_store (convertApiMessageToFrontendMessage w) 0 apiMessages h of
             (Inl err, h1) \<Rightarrow> Some (Some err, s, [], h1)
           | (Inr converted, h1) \<Rightarrow>
               afterConversion_store w messages append_cb setAncestorMessages converted s h1))"

text \<open>
  The \<open>catch\<close> block: the error marker is a new object, and \<open>[...messages, errorMarker]\<close>
  a new array that holds the references of the caller's array, then the marker's.
\<close>

definition catchBlock_store ::
  "'api world \<Rightarrow> address \<Rightarrow> thrown \<Rightarrow> nat \<Rightarrow> cm_state \<Rightarrow> store
     \<Rightarrow> (outcome \<times> cm_state \<times> store_event list \<times> store) option"
where
  "catchBlock_store w messages err earlier s h =
     (case newObject (errorMarker (dateNow_id w) (dateNow_created w)) h of
        (marker, h1) \<Rightarrow>
          (case arrayAt h1 messages of
             None \<Rightarrow> None
           | Some rs \<Rightarrow>
               (case newArray (rs @ [marker]) h1 of
                  (withMarker, h2) \<Rightarrow>
                    (case readArray h2 withMarker of
                       None \<Rightarrow> None
                     | Some ms \<Rightarrow>
                         (case setMessages_does w earlier ms of
                            Returns \<Rightarrow>
                              Some (Resolved,
                                    s\<lparr>compactionError := Some (errorText err),
                                      isCompacting := False\<rparr>,
                                    [ConsoleError ''Error during compaction:'' err,
                                     SetCompactionError (Some (errorText err)),
                                     SetMessages withMarker,
                                     SetIsCompacting False],
                                    h2)
                          | Throws e \<Rightarrow>
                              Some (Rejected e,
                                    s\<lparr>compactionError := Some (errorText err)\<rparr>,
                                    [ConsoleError ''Error during compaction:'' err,
                                     SetCompactionError (Some (errorText err)),
                                     SetMessages withMarker],
                                    h2))))))"

definition performCompaction_store ::
  "'api world \<Rightarrow> address \<Rightarrow> append_fn \<Rightarrow> bool \<Rightarrow> bool \<Rightarrow> cm_state \<Rightarrow> store
     \<Rightarrow> (outcome \<times> cm_state \<times> store_event list \<times> store) option"
where
  "performCompaction_store w messages append_cb isManual setAncestorMessages s h =
     (case tryBlock_store w messages append_cb setAncestorMessages
             (s\<lparr>isCompacting := True, compactionError := None\<rparr>) h of
        None \<Rightarrow> None
      | Some (None, s1, calls, h1) \<Rightarrow>
          Some (Resolved, s1,
                [SetIsCompacting True, SetCompactionError None,
                 ManageContextFromBackend messages ''summarize''] @ calls,
                h1)
      | Some (Some err, s1, calls, h1) \<Rightarrow>
          (case catchBlock_store w messages err (length (setMessagesCalls calls)) s1 h1 of
             None \<Rightarrow> None
           | Some (out, s2, later, h2) \<Rightarrow>
               Some (out, s2,
                     [SetIsCompacting True, SetCompactionError None,
                      ManageContextFromBackend messages ''summarize''] @ calls @ later,
                     h2)))"

text \<open>
  A store is well formed when nothing lives at or beyond \<open>limit\<close>; \<open>extends h h'\<close>
  says that \<open>h'\<close> is \<open>h\<close> with more objects and arrays, everything below the limit of
  \<open>h\<close> being as it was.
\<close>

definition wellFormed :: "store \<Rightarrow> bool" where
  "wellFormed h \<longleftrightarrow>
     (\<forall>a. limit h \<le> a \<longrightarrow> objectAt h a = None \<and> arrayAt h a = None)"

definition extends :: "store \<Rightarrow> store \<Rightarrow> bool" where
  "extends h h' \<longleftrightarrow>
     limit h \<le> limit h' \<and> wellFormed h'
     \<and> (\<forall>a < limit h. objectAt h' a = objectAt h a \<and> arrayAt h' a = arrayAt h a)"

text \<open>
  A store event and an event say the same in a store when each address of the one
  holds the value of the other.
\<close>

definition sameCalls :: "store \<Rightarrow> store_event list \<Rightarrow> event list \<Rightarrow> bool" where
  "sameCalls h tr tr' \<longleftrightarrow>
     list_all2 (rel_call (\<lambda>a ms. readArray h a = Some ms) (\<lambda>r m. objectAt h r = Some m)) tr tr'"

section \<open>The conversion collaborator\<close>

text \<open>
  The contract the component relies on: a conversion that returns yields a message
  that carries the two flags it was given.
\<close>

definition appliesFlags :: "('api \<Rightarrow> bool \<Rightarrow> bool \<Rightarrow> thrown + message) \<Rightarrow> bool" where
  "appliesFlags conv \<longleftrightarrow>
     (\<forall>a d l m. conv a d l = Inr m \<longrightarrow> display m = d \<and> sendToLLM m = l)"

text \<open>
  Modelled from the spec: \<open>convertApiMessageToFrontendMessage\<close> is imported from
  \<open>./index\<close>, which is not among the sources. Section 6 of the specification gives its
  interface: given one raw message and two explicit booleans it returns one internal
  message with those flags applied, and a malformed input surfaces as a thrown error.
  Here a raw message is a message whose flags are still to be set, and one without any
  content block counts as malformed.
\<close>

definition convertWithFlags :: "message \<Rightarrow> bool \<Rightarrow> bool \<Rightarrow> thrown + message" where
  "convertWithFlags apiMessage d l =
     (if content apiMessage = [] then Inl (ErrorObject ''malformed message'')
      else Inr (apiMessage\<lparr>display := d, sendToLLM := l\<rparr>))"

section \<open>A sample conversation\<close>

definition textMessage :: "string \<Rightarrow> string \<Rightarrow> bool \<Rightarrow> bool \<Rightarrow> message" where
  "textMessage r t d l =
     \<lparr> id_msg = ''m'', role = r, created = 1700000000,
       content = [\<lparr> type = ''text'', msg = t \<rparr>], display = d, sendToLLM = l \<rparr>"

definition rawMarker :: message where
  "rawMarker =
     \<lparr> id_msg = ''r0'', role = ''assistant'', created = 1700000100,
       content = [\<lparr> type = ''summarizationRequested'', msg = ''Conversation compacted'' \<rparr>],
       display = True, sendToLLM = True \<rparr>"

definition sampleMessages :: "message list" where
  "sampleMessages =
     [textMessage ''user'' ''hello'' True True,
      textMessage ''assistant'' ''hi'' False True,
      textMessage ''user'' ''more'' True False,
      textMessage ''assistant'' ''done'' False False]"

text \<open>A backend that returns the first \<open>n\<close> of five messages; every callback returns.\<close>

definition sampleWorld :: "nat \<Rightarrow> message world" where
  "sampleWorld n =
     \<lparr> summaryResponse =
         Inr (take n [rawMarker,
                      textMessage ''user'' ''summary'' True True,
                      textMessage ''assistant'' ''continue'' True True,
                      textMessage ''assistant'' ''extra'' True True,
                      textMessage ''assistant'' ''last'' True True]),
       convertApiMessageToFrontendMessage = convertWithFlags,
       dateNow_id = 1700000200123,
       dateNow_created = 1700000200124,
       clearAlerts_does = Returns,
       setAncestorMessages_does = (\<lambda>ms. Returns),
       setMessages_does = (\<lambda>n ms. Returns) \<rparr>"

text \<open>A backend that rejects; every callback returns.\<close>

definition rejectingWorld :: "thrown \<Rightarrow> message world" where
  "rejectingWorld err =
     \<lparr> summaryResponse = Inl err,
       convertApiMessageToFrontendMessage = convertWithFlags,
       dateNow_id = 1700000200123,
       dateNow_created = 1700000200124,
       clearAlerts_does = Returns,
       setAncestorMessages_does = (\<lambda>ms. Returns),
       setMessages_does = (\<lambda>n ms. Returns) \<rparr>"

text \<open>Callbacks that throw: \<open>clearAlerts\<close> in the first world, \<open>setMessages\<close> in the second.\<close>

definition alertsThrowWorld :: "message world" where
  "alertsThrowWorld = (sampleWorld 3)\<lparr>clearAlerts_does := Throws (ErrorObject ''alerts'')\<rparr>"

definition setMessagesThrowWorld :: "message world" where
  "setMessagesThrowWorld =
     (rejectingWorld (ErrorObject ''Network error''))
       \<lparr>setMessages_does := (\<lambda>n ms. Throws (ErrorObject ''unmounted''))\<rparr>"

text \<open>The sample conversation in a store: four message objects and the caller's array of them.\<close>

definition sampleStore :: store where
  "sampleStore =
     \<lparr> objectAt = [0 \<mapsto> textMessage ''user'' ''hello'' True True,
                    1 \<mapsto> textMessage ''assistant'' ''hi'' False True,
                    2 \<mapsto> textMessage ''user'' ''more'' True False,
                    3 \<mapsto> textMessage ''assistant'' ''done'' False False],
       arrayAt = [4 \<mapsto> [0, 1, 2, 3]],
       limit = 5 \<rparr>"

definition idle :: cm_state where
  "idle = \<lparr> isCompacting = False, compactionError = None \<rparr>"


section \<open>Facts about the run over values\<close>

declare decimal.simps [simp del]

lemma convertMessages_length:
  "convertMessages conv i as = Inr cs \<Longrightarrow> length cs = length as"
  by (induction as arbitrary: i cs) (auto split: sum.splits if_splits)

lemma convertMessages_nth:
  "convertMessages conv i as = Inr cs \<Longrightarrow> k < length as \<Longrightarrow>
     (if i + k = 0 then conv (as ! k) True False else conv (as ! k) False True) = Inr (cs ! k)"
proof (induction as arbitrary: i cs k)
  case Nil
  then show ?case by simp
next
  case (Cons a as)
  from Cons.prems(1) obtain m ms where
    hd: "(if i = 0 then conv a True False else conv a False True) = Inr m"
    and tl: "convertMessages conv (Suc i) as = Inr ms"
    and cs: "cs = m # ms"
    by (auto split: sum.splits if_splits)
  show ?case
  proof (cases k)
    case 0
    with hd cs show ?thesis by (cases "i = 0") simp_all
  next
    case (Suc j)
    with Cons.prems(2) have "j < length as" by simp
    from Cons.IH [OF tl this] Suc cs show ?thesis by simp
  qed
qed

lemma convertMessages_flags:
  assumes "appliesFlags conv" and "convertMessages conv 0 as = Inr cs" and "k < length as"
  shows "display (cs ! k) = (k = 0) \<and> sendToLLM (cs ! k) = (k \<noteq> 0)"
  using convertMessages_nth [OF assms(2,3)] assms(1)
  by (auto simp: appliesFlags_def split: if_splits)

lemma appliesFlags_convertWithFlags: "appliesFlags convertWithFlags"
  by (auto simp: appliesFlags_def convertWithFlags_def split: if_splits)

lemma sampleWorld_converts:
  "convertMessages convertWithFlags 0
     [rawMarker, textMessage ''user'' ''summary'' True True,
      textMessage ''assistant'' ''continue'' True True] =
   Inr [rawMarker\<lparr>display := True, sendToLLM := False\<rparr>,
        textMessage ''user'' ''summary'' False True,
        textMessage ''assistant'' ''continue'' False True]"
  by (simp add: convertWithFlags_def rawMarker_def textMessage_def)

lemma sampleWorld_converts_two:
  "convertMessages convertWithFlags 0 [rawMarker, textMessage ''user'' ''summary'' True True] =
   Inr [rawMarker\<lparr>display := True, sendToLLM := False\<rparr>,
        textMessage ''user'' ''summary'' False True]"
  by (simp add: convertWithFlags_def rawMarker_def textMessage_def)

lemma sampleWorld_converts_five:
  "convertMessages convertWithFlags 0
     [rawMarker, textMessage ''user'' ''summary'' True True,
      textMessage ''assistant'' ''continue'' True True,
      textMessage ''assistant'' ''extra'' True True,
      textMessage ''assistant'' ''last'' True True] =
   Inr [rawMarker\<lparr>display := True, sendToLLM := False\<rparr>,
        textMessage ''user'' ''summary'' False True,
        textMessage ''assistant'' ''continue'' False True,
        textMessage ''assistant'' ''extra'' False True,
        textMessage ''assistant'' ''last'' False True]"
  by (simp add: convertWithFlags_def rawMarker_def textMessage_def)

lemma fireTimers_simps:
  "fireTimers [] = []"
  "fireTimers (e # tr) = fire e @ fireTimers tr"
  "fireTimers (tr @ tr') = fireTimers tr @ fireTimers tr'"
  by (simp_all add: fireTimers_def)







lemma try_cases [case_names success failure ancestorsThrow setMessagesThrow]:
  obtains apiMessages cs where "summaryResponse w = Inr apiMessages"
      and "convertMessages (convertApiMessageToFrontendMessage w) 0 apiMessages = Inr cs"
      and "anc \<longrightarrow> setAncestorMessages_does w (ancestorMessages messages) = Returns"
      and "setMessages_does w 0 cs = Returns"
  | err where "summaryResponse w = Inl err
      \<or> (\<exists>apiMessages. summaryResponse w = Inr apiMessages
           \<and> convertMessages (convertApiMessageToFrontendMessage w) 0 apiMessages = Inl err)"
  | apiMessages cs err where "summaryResponse w = Inr apiMessages"
      and "convertMessages (convertApiMessageToFrontendMessage w) 0 apiMessages = Inr cs"
      and "anc" and "setAncestorMessages_does w (ancestorMessages messages) = Throws err"
  | apiMessages cs err where "summaryResponse w = Inr apiMessages"
      and "convertMessages (convertApiMessageToFrontendMessage w) 0 apiMessages = Inr cs"
      and "anc \<longrightarrow> setAncestorMessages_does w (ancestorMessages messages) = Returns"
      and "setMessages_does w 0 cs = Throws err"
proof (cases "summaryResponse w")
  case (Inl err)
  then show ?thesis using that(2) by blast
next
  case r: (Inr apiMessages)
  show ?thesis
  proof (cases "convertMessages (convertApiMessageToFrontendMessage w) 0 apiMessages")
    case (Inl err)
    with r show ?thesis using that(2) by blast
  next
    case c: (Inr cs)
    show ?thesis
    proof (cases "anc \<longrightarrow> setAncestorMessages_does w (ancestorMessages messages) = Returns")
      case False
      then obtain err where "anc"
        and "setAncestorMessages_does w (ancestorMessages messages) = Throws err"
        by (cases "setAncestorMessages_does w (ancestorMessages messages)") auto
      with r c show ?thesis using that(3) by blast
    next
      case a: True
      show ?thesis
      proof (cases "setMessages_does w 0 cs")
        case Returns
        with r c a show ?thesis using that(1) by blast
      next
        case (Throws err)
        with r c a show ?thesis using that(4) by blast
      qed
    qed
  qed
qed

lemma tryBlock_success:
  assumes "summaryResponse w = Inr apiMessages"
    and "convertMessages (convertApiMessageToFrontendMessage w) 0 apiMessages = Inr cs"
    and "anc \<longrightarrow> setAncestorMessages_does w (ancestorMessages messages) = Returns"
    and "setMessages_does w 0 cs = Returns"
  shows "tryBlock w messages f anc s =
     (None, s\<lparr>isCompacting := False\<rparr>,
      (if anc then [SetAncestorMessages (ancestorMessages messages)] else [])
      @ [SetMessages cs]
      @ (if 2 < length cs then [SetTimeout f (cs ! 2) 100] else [])
      @ [SetIsCompacting False])"
  using assms by (simp add: tryBlock_def afterConversion_def ancestorBlock_def at_index_def)

lemma tryBlock_failure:
  assumes "summaryResponse w = Inl err
     \<or> (\<exists>apiMessages. summaryResponse w = Inr apiMessages
          \<and> convertMessages (convertApiMessageToFrontendMessage w) 0 apiMessages = Inl err)"
  shows "tryBlock w messages f anc s = (Some err, s, [])"
  using assms by (auto simp: tryBlock_def)

lemma tryBlock_ancestorsThrow:
  assumes "summaryResponse w = Inr apiMessages"
    and "convertMessages (convertApiMessageToFrontendMessage w) 0 apiMessages = Inr cs"
    and "anc" and "setAncestorMessages_does w (ancestorMessages messages) = Throws err"
  shows "tryBlock w messages f anc s =
     (Some err, s, [SetAncestorMessages (ancestorMessages messages)])"
  using assms by (simp add: tryBlock_def afterConversion_def ancestorBlock_def)

lemma tryBlock_setMessagesThrow:
  assumes "summaryResponse w = Inr apiMessages"
    and "convertMessages (convertApiMessageToFrontendMessage w) 0 apiMessages = Inr cs"
    and "anc \<longrightarrow> setAncestorMessages_does w (ancestorMessages messages) = Returns"
    and "setMessages_does w 0 cs = Throws err"
  shows "tryBlock w messages f anc s =
     (Some err, s,
      (if anc then [SetAncestorMessages (ancestorMessages messages)] else []) @ [SetMessages cs])"
  using assms by (simp add: tryBlock_def afterConversion_def ancestorBlock_def)

lemma performCompaction_completed:
  assumes "tryBlock w messages f anc (s\<lparr>isCompacting := True, compactionError := None\<rparr>)
      = (None, s1, calls)"
  shows "performCompaction w messages f isManual anc s =
     (Resolved, s1,
      [SetIsCompacting True, SetCompactionError None,
       ManageContextFromBackend messages ''summarize''] @ calls)"
  using assms
  by (simp add: performCompaction_def performCompaction_begin_def performCompaction_settled_def)

lemma performCompaction_caught:
  assumes "tryBlock w messages f anc (s\<lparr>isCompacting := True, compactionError := None\<rparr>)
      = (Some err, s1, calls)"
  shows "performCompaction w messages f isManual anc s =
     (case setMessages_does w (length (setMessagesCalls calls))
             (messages @ [errorMarker (dateNow_id w) (dateNow_created w)]) of
        Returns \<Rightarrow>
          (Resolved,
           s1\<lparr>compactionError := Some (errorText err), isCompacting := False\<rparr>,
           [SetIsCompacting True, SetCompactionError None,
            ManageContextFromBackend messages ''summarize''] @ calls
           @ [ConsoleError ''Error during compaction:'' err,
              SetCompactionError (Some (errorText err)),
              SetMessages (messages @ [errorMarker (dateNow_id w) (dateNow_created w)]),
              SetIsCompacting False])
      | Throws e \<Rightarrow>
          (Rejected e,
           s1\<lparr>compactionError := Some (errorText err)\<rparr>,
           [SetIsCompacting True, SetCompactionError None,
            ManageContextFromBackend messages ''summarize''] @ calls
           @ [ConsoleError ''Error during compaction:'' err,
              SetCompactionError (Some (errorText err)),
              SetMessages (messages @ [errorMarker (dateNow_id w) (dateNow_created w)])]))"
  using assms
  by (simp add: performCompaction_def performCompaction_begin_def performCompaction_settled_def
      catchBlock_def split: completion.splits)

lemma performCompaction_success:
  assumes "summaryResponse w = Inr apiMessages"
    and "convertMessages (convertApiMessageToFrontendMessage w) 0 apiMessages = Inr cs"
    and "anc \<longrightarrow> setAncestorMessages_does w (ancestorMessages messages) = Returns"
    and "setMessages_does w 0 cs = Returns"
  shows "performCompaction w messages f isManual anc s =
     (Resolved,
      s\<lparr>isCompacting := False, compactionError := None\<rparr>,
      [SetIsCompacting True, SetCompactionError None,
       ManageContextFromBackend messages ''summarize'']
      @ (if anc then [SetAncestorMessages (ancestorMessages messages)] else [])
      @ [SetMessages cs]
      @ (if 2 < length cs then [SetTimeout f (cs ! 2) 100] else [])
      @ [SetIsCompacting False])"
  unfolding performCompaction_completed [OF tryBlock_success [OF assms]] by simp

lemma performCompaction_failure:
  assumes "summaryResponse w = Inl err
     \<or> (\<exists>apiMessages. summaryResponse w = Inr apiMessages
          \<and> convertMessages (convertApiMessageToFrontendMessage w) 0 apiMessages = Inl err)"
  shows "performCompaction w messages f isManual anc s =
     (case setMessages_does w 0 (messages @ [errorMarker (dateNow_id w) (dateNow_created w)]) of
        Returns \<Rightarrow>
          (Resolved,
           s\<lparr>isCompacting := False, compactionError := Some (errorText err)\<rparr>,
           [SetIsCompacting True, SetCompactionError None,
            ManageContextFromBackend messages ''summarize'',
            ConsoleError ''Error during compaction:'' err,
            SetCompactionError (Some (errorText err)),
            SetMessages (messages @ [errorMarker (dateNow_id w) (dateNow_created w)]),
            SetIsCompacting False])
      | Throws e \<Rightarrow>
          (Rejected e,
           s\<lparr>isCompacting := True, compactionError := Some (errorText err)\<rparr>,
           [SetIsCompacting True, SetCompactionError None,
            ManageContextFromBackend messages ''summarize'',
            ConsoleError ''Error during compaction:'' err,
            SetCompactionError (Some (errorText err)),
            SetMessages (messages @ [errorMarker (dateNow_id w) (dateNow_created w)])]))"
  unfolding performCompaction_caught [OF tryBlock_failure [OF assms]]
  by (simp split: completion.splits)

lemma tryBlock_calls:
  assumes "tryBlock w messages f anc s = (thr, s1, calls)"
  shows "ClearAlerts \<notin> set calls"
    and "\<forall>m. Append m \<notin> set calls"
    and "\<forall>g m d. SetTimeout g m d \<in> set calls \<longrightarrow> g = f"
    and "s1 = stateAfter calls s"
    and "thr = None \<longrightarrow> calls \<noteq> [] \<and> last calls = SetIsCompacting False"
    and "length (setMessagesCalls calls) \<le> 1"
proof -
  consider (success) apiMessages cs where "summaryResponse w = Inr apiMessages"
      "convertMessages (convertApiMessageToFrontendMessage w) 0 apiMessages = Inr cs"
      "anc \<longrightarrow> setAncestorMessages_does w (ancestorMessages messages) = Returns"
      "setMessages_does w 0 cs = Returns"
    | (failure) err where "summaryResponse w = Inl err
      \<or> (\<exists>apiMessages. summaryResponse w = Inr apiMessages
           \<and> convertMessages (convertApiMessageToFrontendMessage w) 0 apiMessages = Inl err)"
    | (ancestorsThrow) apiMessages cs err where "summaryResponse w = Inr apiMessages"
      "convertMessages (convertApiMessageToFrontendMessage w) 0 apiMessages = Inr cs"
      "anc" "setAncestorMessages_does w (ancestorMessages messages) = Throws err"
    | (setMessagesThrow) apiMessages cs err where "summaryResponse w = Inr apiMessages"
      "convertMessages (convertApiMessageToFrontendMessage w) 0 apiMessages = Inr cs"
      "anc \<longrightarrow> setAncestorMessages_does w (ancestorMessages messages) = Returns"
      "setMessages_does w 0 cs = Throws err"
    by (rule try_cases [of w anc messages]) blast+
  then have "ClearAlerts \<notin> set calls
    \<and> (\<forall>m. Append m \<notin> set calls)
    \<and> (\<forall>g m d. SetTimeout g m d \<in> set calls \<longrightarrow> g = f)
    \<and> s1 = stateAfter calls s
    \<and> (thr = None \<longrightarrow> calls \<noteq> [] \<and> last calls = SetIsCompacting False)
    \<and> length (setMessagesCalls calls) \<le> 1"
  proof cases
    case success
    from assms show ?thesis
      unfolding tryBlock_success [OF success] by (auto simp: stateAfter_def)
  next
    case failure
    from assms show ?thesis
      unfolding tryBlock_failure [OF failure] by (auto simp: stateAfter_def)
  next
    case ancestorsThrow
    from assms show ?thesis
      unfolding tryBlock_ancestorsThrow [OF ancestorsThrow] by (auto simp: stateAfter_def)
  next
    case setMessagesThrow
    from assms show ?thesis
      unfolding tryBlock_setMessagesThrow [OF setMessagesThrow] by (auto simp: stateAfter_def)
  qed
  then show "ClearAlerts \<notin> set calls"
    and "\<forall>m. Append m \<notin> set calls"
    and "\<forall>g m d. SetTimeout g m d \<in> set calls \<longrightarrow> g = f"
    and "s1 = stateAfter calls s"
    and "thr = None \<longrightarrow> calls \<noteq> [] \<and> last calls = SetIsCompacting False"
    and "length (setMessagesCalls calls) \<le> 1"
    by blast+
qed

lemma stateAfter_append: "stateAfter (tr @ tr') s = stateAfter tr' (stateAfter tr s)"
  by (simp add: stateAfter_def)

text \<open>
  Every run of \<open>performCompaction\<close> starts with the two resets and the call of the
  backend; what follows depends on the outcome.
\<close>

lemma performCompaction_shape:
  "\<exists>out rest. performCompaction w messages f isManual anc s =
      (out, stateAfter ([SetIsCompacting True, SetCompactionError None,
           ManageContextFromBackend messages ''summarize''] @ rest) s,
       [SetIsCompacting True, SetCompactionError None,
        ManageContextFromBackend messages ''summarize''] @ rest)
    \<and> ClearAlerts \<notin> set rest
    \<and> (\<forall>m. Append m \<notin> set rest)
    \<and> (\<forall>g m d. SetTimeout g m d \<in> set rest \<longrightarrow> g = f)
    \<and> (out = Resolved \<longrightarrow> rest \<noteq> [] \<and> last rest = SetIsCompacting False)
    \<and> ((\<forall>k. setMessages_does w k
              (messages @ [errorMarker (dateNow_id w) (dateNow_created w)]) = Returns)
         \<longrightarrow> out = Resolved)"
proof -
  let ?s0 = "s\<lparr>isCompacting := True, compactionError := None\<rparr>"
  let ?pre = "[SetIsCompacting True, SetCompactionError None,
       ManageContextFromBackend messages ''summarize'']"
  let ?withMarker = "messages @ [errorMarker (dateNow_id w) (dateNow_created w)]"
  obtain thr s1 calls where t: "tryBlock w messages f anc ?s0 = (thr, s1, calls)"
    by (cases "tryBlock w messages f anc ?s0")
  note c = tryBlock_calls [OF t]
  have s0: "?s0 = stateAfter ?pre s" by (simp add: stateAfter_def)
  show ?thesis
  proof (cases thr)
    case None
    with t have "performCompaction w messages f isManual anc s = (Resolved, s1, ?pre @ calls)"
      by (simp add: performCompaction_completed)
    moreover have "s1 = stateAfter (?pre @ calls) s"
      using c(4) s0 by (simp only: stateAfter_append)
    ultimately show ?thesis
      using c(1,2,3,5) None by auto
  next
    case (Some err)
    let ?k = "length (setMessagesCalls calls)"
    let ?tail = "[ConsoleError ''Error during compaction:'' err,
              SetCompactionError (Some (errorText err)),
              SetMessages ?withMarker]"
    note p = performCompaction_caught [OF t [unfolded Some], of isManual]
    have st: "s1 = stateAfter (?pre @ calls) s"
      using c(4) s0 by (simp only: stateAfter_append)
    show ?thesis
    proof (cases "setMessages_does w ?k ?withMarker")
      case Returns
      let ?rest = "calls @ ?tail @ [SetIsCompacting False]"
      have "performCompaction w messages f isManual anc s =
          (Resolved, stateAfter (?pre @ ?rest) s, ?pre @ ?rest)"
        unfolding p Returns using st
        by (simp add: stateAfter_def)
      then show ?thesis
        using c(1,2,3) by (intro exI [of _ Resolved] exI [of _ ?rest]) auto
    next
      case (Throws e)
      let ?rest = "calls @ ?tail"
      have "performCompaction w messages f isManual anc s =
          (Rejected e, stateAfter (?pre @ ?rest) s, ?pre @ ?rest)"
        unfolding p Throws using st
        by (simp add: stateAfter_def)
      moreover have "\<not> (\<forall>k. setMessages_does w k ?withMarker = Returns)"
        using Throws by (metis completion.distinct(1))
      ultimately show ?thesis
        using c(1,2,3) by (intro exI [of _ "Rejected e"] exI [of _ ?rest]) auto
    qed
  qed
qed


lemma handleManualCompaction_throws:
  assumes "clearAlerts_does w = Throws e"
  shows "handleManualCompaction w messages ap True anc s = (Rejected e, s, [ClearAlerts])"
  using assms by (simp add: handleManualCompaction_def)

section \<open>Facts about the run over the store\<close>

lemma extends_refl: "wellFormed h \<Longrightarrow> extends h h"
  by (simp add: extends_def)

lemma extends_trans: "extends h1 h2 \<Longrightarrow> extends h2 h3 \<Longrightarrow> extends h1 h3"
  by (auto simp: extends_def)

lemma newObject_extends:
  assumes "wellFormed h" and "newObject m h = (r, h')"
  shows "extends h h'" and "r = limit h" and "limit h' = Suc (limit h)"
    and "objectAt h' r = Some m" and "arrayAt h' = arrayAt h"
  using assms by (auto simp: newObject_def extends_def wellFormed_def)

lemma newArray_extends:
  assumes "wellFormed h" and "newArray rs h = (a, h')"
  shows "extends h h'" and "a = limit h" and "limit h' = Suc (limit h)"
    and "arrayAt h' a = Some rs" and "objectAt h' = objectAt h"
  using assms by (auto simp: newArray_def extends_def wellFormed_def)

lemma extends_wellFormed: "extends h h' \<Longrightarrow> wellFormed h'"
  by (simp add: extends_def)

lemma extends_limit: "extends h h' \<Longrightarrow> limit h \<le> limit h'"
  by (simp add: extends_def)

lemma extends_objectAt: "extends h h' \<Longrightarrow> a < limit h \<Longrightarrow> objectAt h' a = objectAt h a"
  by (simp add: extends_def)

lemma extends_arrayAt: "extends h h' \<Longrightarrow> a < limit h \<Longrightarrow> arrayAt h' a = arrayAt h a"
  by (simp add: extends_def)

lemma readObjects_Some_iff:
  "readObjects h rs = Some ms \<longleftrightarrow> map (objectAt h) rs = map Some ms"
proof (induction rs arbitrary: ms)
  case Nil
  then show ?case by auto
next
  case (Cons r rs)
  show ?case
  proof (cases ms)
    case Nil
    then show ?thesis by (simp split: option.splits)
  next
    case (Cons m ms')
    with Cons.IH [of ms'] show ?thesis by (auto split: option.splits)
  qed
qed

lemma newObjects_extends:
  assumes "wellFormed h" and "newObjects ms h = (rs, h')"
  shows "extends h h' \<and> arrayAt h' = arrayAt h
    \<and> (\<forall>r \<in> set rs. limit h \<le> r \<and> r < limit h')
    \<and> map (objectAt h') rs = map Some ms"
  using assms
proof (induction ms arbitrary: h rs h')
  case Nil
  then show ?case by (simp add: extends_refl)
next
  case (Cons m ms)
  obtain r h1 where o: "newObject m h = (r, h1)" by (cases "newObject m h")
  obtain rs' h2 where n: "newObjects ms h1 = (rs', h2)" by (cases "newObjects ms h1")
  from Cons.prems(2) o n have rs: "rs = r # rs'" and h': "h' = h2" by simp_all
  note no = newObject_extends [OF Cons.prems(1) o]
  from Cons.IH [OF extends_wellFormed [OF no(1)] n]
  have ih: "extends h1 h2" "arrayAt h2 = arrayAt h1"
    "\<forall>r \<in> set rs'. limit h1 \<le> r \<and> r < limit h2" "map (objectAt h2) rs' = map Some ms"
    by simp_all
  have "objectAt h2 r = Some m"
    using extends_objectAt [OF ih(1), of r] no(2,3,4) by simp
  moreover have "r < limit h2"
    using extends_limit [OF ih(1)] no(2,3) by simp
  ultimately show ?case
    unfolding rs h' using extends_trans [OF no(1) ih(1)] ih(2,3,4) no(2,3,5) by auto
qed

lemma convertMessages_store_extends:
  assumes "wellFormed h" and "convertMessages_store conv i as h = (res, h')"
  shows "extends h h' \<and> arrayAt h' = arrayAt h
    \<and> (case res of
          Inl err \<Rightarrow> convertMessages conv i as = Inl err
        | Inr rs \<Rightarrow> (\<exists>cs. convertMessages conv i as = Inr cs
            \<and> map (objectAt h') rs = map Some cs
            \<and> (\<forall>r \<in> set rs. limit h \<le> r \<and> r < limit h')))"
  using assms
proof (induction as arbitrary: i h res h')
  case Nil
  then show ?case by (auto simp: extends_refl)
next
  case (Cons a as)
  let ?c = "if i = 0 then conv a True False else if i = 1 then conv a False True
      else conv a False True"
  show ?case
  proof (cases ?c)
    case (Inl err)
    with Cons.prems show ?thesis by (auto simp: extends_refl)
  next
    case (Inr m)
    obtain r h1 where o: "newObject m h = (r, h1)" by (cases "newObject m h")
    obtain res' h2 where n: "convertMessages_store conv (Suc i) as h1 = (res', h2)"
      by (cases "convertMessages_store conv (Suc i) as h1")
    note no = newObject_extends [OF Cons.prems(1) o]
    from Cons.IH [OF extends_wellFormed [OF no(1)] n]
    have ih: "extends h1 h2" "arrayAt h2 = arrayAt h1"
      "case res' of
          Inl err \<Rightarrow> convertMessages conv (Suc i) as = Inl err
        | Inr rs \<Rightarrow> (\<exists>cs. convertMessages conv (Suc i) as = Inr cs
            \<and> map (objectAt h2) rs = map Some cs
            \<and> (\<forall>r \<in> set rs. limit h1 \<le> r \<and> r < limit h2))"
      by simp_all
    have h': "h' = h2" and res: "res = (case res' of Inl err \<Rightarrow> Inl err | Inr rs \<Rightarrow> Inr (r # rs))"
      using Cons.prems(2) Inr o n by (auto split: sum.splits)
    have r: "objectAt h2 r = Some m" "r < limit h2" "limit h \<le> r"
      using extends_objectAt [OF ih(1), of r] extends_limit [OF ih(1)] no(2,3,4) by simp_all
    have ext: "extends h h2" by (rule extends_trans [OF no(1) ih(1)])
    show ?thesis
    proof (cases res')
      case (Inl err)
      with ih(3) Inr res ext ih(2) no(5) show ?thesis unfolding h' by simp
    next
      case (Inr rs)
      with ih(3) obtain cs where cs: "convertMessages conv (Suc i) as = Inr cs"
        "map (objectAt h2) rs = map Some cs" "\<forall>r \<in> set rs. limit h1 \<le> r \<and> r < limit h2"
        by auto
      from cs(3) no(3) have "\<forall>r \<in> set rs. limit h \<le> r \<and> r < limit h2" by auto
      with cs(1,2) r \<open>?c = Inr m\<close> Inr res ext ih(2) no(5) show ?thesis unfolding h' by simp
    qed
  qed
qed

lemma live_below_limit:
  assumes "wellFormed h" and "arrayAt h messages = Some refs" and "readObjects h refs = Some ms"
  shows "messages < limit h" and "\<forall>r \<in> set refs. r < limit h"
proof -
  show "messages < limit h"
    using assms(1,2) by (metis wellFormed_def not_le option.distinct(1))
  have "map (objectAt h) refs = map Some ms"
    using assms(3) by (simp add: readObjects_Some_iff)
  then have "\<forall>r \<in> set refs. objectAt h r \<noteq> None"
    by (metis (no_types, lifting) imageE list.set_map option.distinct(1) image_eqI)
  then show "\<forall>r \<in> set refs. r < limit h"
    using assms(1) by (metis wellFormed_def not_le)
qed

lemma live_preserved:
  assumes "wellFormed h" and "arrayAt h messages = Some refs" and "readObjects h refs = Some ms"
    and "extends h h'"
  shows "arrayAt h' messages = Some refs" and "readObjects h' refs = Some ms"
    and "readArray h' messages = Some ms"
proof -
  note below = live_below_limit [OF assms(1,2,3)]
  show a: "arrayAt h' messages = Some refs"
    using extends_arrayAt [OF assms(4) below(1)] assms(2) by simp
  have m: "map (objectAt h') refs = map (objectAt h) refs"
    using below(2) extends_objectAt [OF assms(4)] by simp
  show r: "readObjects h' refs = Some ms"
    using assms(3) by (simp only: readObjects_Some_iff m)
  from a r show "readArray h' messages = Some ms"
    by (simp add: readArray_def)
qed

lemma fresh_not_in_dom:
  "wellFormed h \<Longrightarrow> limit h \<le> a \<Longrightarrow> a \<notin> dom (objectAt h) \<and> a \<notin> dom (arrayAt h)"
  by (auto simp: wellFormed_def)

lemma old_below_limit:
  "wellFormed h \<Longrightarrow> a \<in> dom (objectAt h) \<or> a \<in> dom (arrayAt h) \<Longrightarrow> a < limit h"
  by (metis fresh_not_in_dom not_le)

lemma sampleStore_wellFormed: "wellFormed sampleStore"
  by (simp add: wellFormed_def sampleStore_def)


lemma sameCalls_append:
  "sameCalls h tr1 tr1' \<Longrightarrow> sameCalls h tr2 tr2' \<Longrightarrow> sameCalls h (tr1 @ tr2) (tr1' @ tr2')"
  by (simp add: sameCalls_def list_all2_appendI)


lemma readArray_preserved:
  assumes "wellFormed h" and "readArray h a = Some ms" and "extends h h'"
  shows "readArray h' a = Some ms"
proof -
  from assms(2) obtain refs where "arrayAt h a = Some refs" and "readObjects h refs = Some ms"
    by (auto simp: readArray_def split: option.splits)
  from live_preserved(3) [OF assms(1) this assms(3)] show ?thesis .
qed

lemma objectAt_preserved:
  assumes "wellFormed h" and "objectAt h r = Some m" and "extends h h'"
  shows "objectAt h' r = Some m"
proof -
  have "r < limit h"
    using assms(1,2) by (metis wellFormed_def not_le option.distinct(1))
  from extends_objectAt [OF assms(3) this] assms(2) show ?thesis by simp
qed

lemma sameCalls_extends:
  assumes "wellFormed h" and "sameCalls h tr tr'" and "extends h h'"
  shows "sameCalls h' tr tr'"
proof -
  have "rel_call (\<lambda>a ms. readArray h' a = Some ms) (\<lambda>r m. objectAt h' r = Some m) x y"
    if "rel_call (\<lambda>a ms. readArray h a = Some ms) (\<lambda>r m. objectAt h r = Some m) x y" for x y
    using that
    by (rule call.rel_mono_strong)
      (auto intro: readArray_preserved [OF assms(1) _ assms(3)]
        objectAt_preserved [OF assms(1) _ assms(3)])
  with assms(2) show ?thesis
    unfolding sameCalls_def by (auto elim: list_all2_mono)
qed

lemma sameCalls_setMessagesCalls:
  "sameCalls h tr tr' \<Longrightarrow> length (setMessagesCalls tr) = length (setMessagesCalls tr')"
  unfolding sameCalls_def
proof (induction tr tr' rule: list_all2_induct)
  case Nil
  then show ?case by simp
next
  case (Cons x xs y ys)
  then show ?case by (cases x; cases y) simp_all
qed

lemma sameCalls_Nil: "sameCalls h [] []"
  by (simp add: sameCalls_def)

lemma ancestorBlock_store_result:
  assumes "wellFormed h" and "arrayAt h messages = Some refs" and "readObjects h refs = Some ms"
    and "extends h h1"
  shows "\<exists>thr calls calls' h2.
      ancestorBlock_store w messages anc h1 = Some (thr, calls, h2)
    \<and> ancestorBlock w ms anc = (thr, calls')
    \<and> extends h1 h2
    \<and> sameCalls h2 calls calls'
    \<and> (\<forall>a. SetAncestorMessages a \<in> set calls \<longrightarrow>
          limit h \<le> a
          \<and> (\<exists>copies. arrayAt h2 a = Some copies
                \<and> (\<forall>r \<in> set copies. limit h \<le> r)
                \<and> readObjects h2 copies = Some (ancestorMessages ms)))
    \<and> (\<forall>a. SetMessages a \<notin> set calls)
    \<and> (\<forall>x e. ConsoleError x e \<notin> set calls)"
proof (cases anc)
  case False
  then show ?thesis
    using extends_wellFormed [OF assms(4)]
    by (simp add: ancestorBlock_store_def ancestorBlock_def extends_refl sameCalls_Nil)
next
  case True
  let ?thr = "case setAncestorMessages_does w (ancestorMessages ms) of
      Returns \<Rightarrow> None | Throws err \<Rightarrow> Some err"
  have wf1: "wellFormed h1" by (rule extends_wellFormed [OF assms(4)])
  have rd: "readArray h1 messages = Some ms"
    by (rule live_preserved(3) [OF assms])
  obtain copies h1a where o: "newObjects (ancestorMessages ms) h1 = (copies, h1a)"
    by (cases "newObjects (ancestorMessages ms) h1")
  obtain a h2 where n: "newArray copies h1a = (a, h2)"
    by (cases "newArray copies h1a")
  from newObjects_extends [OF wf1 o]
  have os: "extends h1 h1a" "\<forall>r \<in> set copies. limit h1 \<le> r \<and> r < limit h1a"
    "map (objectAt h1a) copies = map Some (ancestorMessages ms)"
    by simp_all
  note na = newArray_extends [OF extends_wellFormed [OF os(1)] n]
  have res: "ancestorBlock_store w messages anc h1 =
      Some (?thr, [SetAncestorMessages a], h2)"
    using True rd o n by (simp add: ancestorBlock_store_def)
  have val: "ancestorBlock w ms anc = (?thr, [SetAncestorMessages (ancestorMessages ms)])"
    using True by (simp add: ancestorBlock_def split: completion.splits)
  have rc: "readObjects h2 copies = Some (ancestorMessages ms)"
    using os(3) by (simp only: readObjects_Some_iff na(5))
  have l1: "limit h \<le> limit h1" by (rule extends_limit [OF assms(4)])
  have ge: "limit h \<le> a"
    using na(2) extends_limit [OF os(1)] l1 by simp
  have cge: "\<forall>r \<in> set copies. limit h \<le> r"
    using os(2) l1 by auto
  have ext: "extends h1 h2"
    by (rule extends_trans [OF os(1) na(1)])
  have same: "sameCalls h2 [SetAncestorMessages a] [SetAncestorMessages (ancestorMessages ms)]"
    using na(4) rc by (simp add: sameCalls_def readArray_def)
  from res val ext same ge na(4) cge rc show ?thesis by auto
qed

lemma afterConversion_store_result:
  assumes "wellFormed h" and "arrayAt h messages = Some refs" and "readObjects h refs = Some ms"
    and "extends h h0"
    and "map (objectAt h0) converted = map Some cs"
    and "\<forall>r \<in> set converted. r < limit h0"
  shows "\<exists>thr s1 calls calls' h2.
      afterConversion_store w messages f anc converted s h0 = Some (thr, s1, calls, h2)
    \<and> afterConversion w ms f anc cs s = (thr, s1, calls')
    \<and> extends h0 h2
    \<and> sameCalls h2 calls calls'
    \<and> (\<forall>a. SetAncestorMessages a \<in> set calls \<longrightarrow>
          limit h \<le> a
          \<and> (\<exists>copies. arrayAt h2 a = Some copies
                \<and> (\<forall>r \<in> set copies. limit h \<le> r)
                \<and> readObjects h2 copies = Some (ancestorMessages ms)))
    \<and> (\<forall>a. SetMessages a \<in> set calls \<longrightarrow> limit h \<le> a)
    \<and> (\<forall>x e. ConsoleError x e \<notin> set calls)"
proof -
  obtain carr h1 where n: "newArray converted h0 = (carr, h1)"
    by (cases "newArray converted h0")
  note na = newArray_extends [OF extends_wellFormed [OF assms(4)] n]
  have e1: "extends h h1" by (rule extends_trans [OF assms(4) na(1)])
  from ancestorBlock_store_result [OF assms(1,2,3) e1, of w anc]
  obtain thr calls calls' h2 where
    ab: "ancestorBlock_store w messages anc h1 = Some (thr, calls, h2)"
    and av: "ancestorBlock w ms anc = (thr, calls')"
    and e2: "extends h1 h2"
    and same: "sameCalls h2 calls calls'"
    and anc: "\<forall>a. SetAncestorMessages a \<in> set calls \<longrightarrow>
          limit h \<le> a
          \<and> (\<exists>copies. arrayAt h2 a = Some copies
                \<and> (\<forall>r \<in> set copies. limit h \<le> r)
                \<and> readObjects h2 copies = Some (ancestorMessages ms))"
    and nosm: "\<forall>a. SetMessages a \<notin> set calls"
    and noce: "\<forall>x e. ConsoleError x e \<notin> set calls"
    by blast
  have ext: "extends h0 h2" by (rule extends_trans [OF na(1) e2])
  have carr_lt: "carr < limit h1" using na(2,3) by simp
  have arr2: "arrayAt h2 carr = Some converted"
    using extends_arrayAt [OF e2 carr_lt] na(4) by simp
  have "\<forall>r \<in> set converted. r < limit h1"
    using assms(6) na(3) by auto
  then have m2: "map (objectAt h2) converted = map (objectAt h1) converted"
    using extends_objectAt [OF e2] by simp
  have rd2: "readObjects h2 converted = Some cs"
    using assms(5) by (simp only: readObjects_Some_iff m2 na(5))
  have ra2: "readArray h2 carr = Some cs"
    using arr2 rd2 by (simp add: readArray_def)
  have carr_ge: "limit h \<le> carr"
    using na(2) extends_limit [OF assms(4)] by simp
  have len: "length converted = length cs"
    using assms(5) by (metis length_map)
  have two: "2 < length cs \<Longrightarrow> objectAt h2 (converted ! 2) = Some (cs ! 2)"
    using rd2 len unfolding readObjects_Some_iff by (metis nth_map)
  show ?thesis
  proof (cases thr)
    case (Some err)
    have "afterConversion_store w messages f anc converted s h0 = Some (Some err, s, calls, h2)"
      using n ab Some by (simp add: afterConversion_store_def)
    moreover have "afterConversion w ms f anc cs s = (Some err, s, calls')"
      using av Some by (simp add: afterConversion_def)
    ultimately show ?thesis
      using ext same anc nosm noce by blast
  next
    case None
    show ?thesis
    proof (cases "setMessages_does w 0 cs")
      case (Throws err)
      have "afterConversion_store w messages f anc converted s h0 =
          Some (Some err, s, calls @ [SetMessages carr], h2)"
        using n ab None ra2 Throws by (simp add: afterConversion_store_def)
      moreover have "afterConversion w ms f anc cs s =
          (Some err, s, calls' @ [SetMessages cs])"
        using av None Throws by (simp add: afterConversion_def)
      moreover have "sameCalls h2 (calls @ [SetMessages carr]) (calls' @ [SetMessages cs])"
        using ra2 by (intro sameCalls_append same) (simp add: sameCalls_def)
      moreover have "\<forall>a. SetAncestorMessages a \<in> set (calls @ [SetMessages carr]) \<longrightarrow>
          limit h \<le> a
          \<and> (\<exists>copies. arrayAt h2 a = Some copies
                \<and> (\<forall>r \<in> set copies. limit h \<le> r)
                \<and> readObjects h2 copies = Some (ancestorMessages ms))"
        using anc by simp
      moreover have "\<forall>a. SetMessages a \<in> set (calls @ [SetMessages carr]) \<longrightarrow> limit h \<le> a"
        using nosm carr_ge by simp
      moreover have "\<forall>x e. ConsoleError x e \<notin> set (calls @ [SetMessages carr])"
        using noce by simp
      ultimately show ?thesis
        using ext by blast
    next
      case Returns
      let ?post = "[SetMessages carr]
          @ (if 2 < length cs then [SetTimeout f (converted ! 2) 100] else [])
          @ [SetIsCompacting False]"
      let ?post' = "[SetMessages cs]
          @ (if 2 < length cs then [SetTimeout f (cs ! 2) 100] else [])
          @ [SetIsCompacting False]"
      have "afterConversion_store w messages f anc converted s h0 =
          Some (None, s\<lparr>isCompacting := False\<rparr>, calls @ ?post, h2)"
        using n ab None ra2 Returns len
        by (simp add: afterConversion_store_def at_index_def)
      moreover have "afterConversion w ms f anc cs s =
          (None, s\<lparr>isCompacting := False\<rparr>, calls' @ ?post')"
        using av None Returns by (simp add: afterConversion_def at_index_def)
      moreover have "sameCalls h2 ?post ?post'"
        using ra2 two by (simp add: sameCalls_def)
      then have "sameCalls h2 (calls @ ?post) (calls' @ ?post')"
        by (rule sameCalls_append [OF same])
      moreover have "\<forall>a. SetAncestorMessages a \<in> set (calls @ ?post) \<longrightarrow>
          limit h \<le> a
          \<and> (\<exists>copies. arrayAt h2 a = Some copies
                \<and> (\<forall>r \<in> set copies. limit h \<le> r)
                \<and> readObjects h2 copies = Some (ancestorMessages ms))"
        using anc by simp
      moreover have "\<forall>a. SetMessages a \<in> set (calls @ ?post) \<longrightarrow> limit h \<le> a"
        using nosm carr_ge by simp
      moreover have "\<forall>x e. ConsoleError x e \<notin> set (calls @ ?post)"
        using noce by simp
      ultimately show ?thesis
        using ext by blast
    qed
  qed
qed

lemma tryBlock_store_result:
  assumes "wellFormed h" and "arrayAt h messages = Some refs" and "readObjects h refs = Some ms"
  shows "\<exists>thr s1 calls calls' h2.
      tryBlock_store w messages f anc s h = Some (thr, s1, calls, h2)
    \<and> tryBlock w ms f anc s = (thr, s1, calls')
    \<and> extends h h2
    \<and> sameCalls h2 calls calls'
    \<and> (\<forall>a. SetAncestorMessages a \<in> set calls \<longrightarrow>
          limit h \<le> a
          \<and> (\<exists>copies. arrayAt h2 a = Some copies
                \<and> (\<forall>r \<in> set copies. limit h \<le> r)
                \<and> readObjects h2 copies = Some (ancestorMessages ms)))
    \<and> (\<forall>a. SetMessages a \<in> set calls \<longrightarrow> limit h \<le> a)
    \<and> (\<forall>x e. ConsoleError x e \<notin> set calls)"
proof (cases "summaryResponse w")
  case (Inl err)
  then show ?thesis
    using extends_refl [OF assms(1)]
    by (simp add: tryBlock_store_def tryBlock_def sameCalls_Nil)
next
  case r: (Inr apiMessages)
  let ?conv = "convertApiMessageToFrontendMessage w"
  obtain res h0 where c: "convertMessages_store ?conv 0 apiMessages h = (res, h0)"
    by (cases "convertMessages_store ?conv 0 apiMessages h")
  from convertMessages_store_extends [OF assms(1) c]
  have e0: "extends h h0"
    and link: "case res of
          Inl err \<Rightarrow> convertMessages ?conv 0 apiMessages = Inl err
        | Inr rs \<Rightarrow> (\<exists>cs. convertMessages ?conv 0 apiMessages = Inr cs
            \<and> map (objectAt h0) rs = map Some cs
            \<and> (\<forall>r \<in> set rs. limit h \<le> r \<and> r < limit h0))"
    by simp_all
  show ?thesis
  proof (cases res)
    case (Inl err)
    with link have "convertMessages ?conv 0 apiMessages = Inl err" by simp
    with r c Inl e0 show ?thesis
      by (simp add: tryBlock_store_def tryBlock_def sameCalls_Nil)
  next
    case (Inr converted)
    with link obtain cs where cv: "convertMessages ?conv 0 apiMessages = Inr cs"
      and objs: "map (objectAt h0) converted = map Some cs"
      and lt: "\<forall>r \<in> set converted. r < limit h0"
      by auto
    from afterConversion_store_result [OF assms e0 objs lt, of w f anc s]
    obtain thr s1 calls calls' h2 where
      a: "afterConversion_store w messages f anc converted s h0 = Some (thr, s1, calls, h2)"
        "afterConversion w ms f anc cs s = (thr, s1, calls')"
        "extends h0 h2" "sameCalls h2 calls calls'"
        "\<forall>a. SetAncestorMessages a \<in> set calls \<longrightarrow>
          limit h \<le> a
          \<and> (\<exists>copies. arrayAt h2 a = Some copies
                \<and> (\<forall>r \<in> set copies. limit h \<le> r)
                \<and> readObjects h2 copies = Some (ancestorMessages ms))"
        "\<forall>a. SetMessages a \<in> set calls \<longrightarrow> limit h \<le> a"
        "\<forall>x e. ConsoleError x e \<notin> set calls"
      by blast
    have "tryBlock_store w messages f anc s h = Some (thr, s1, calls, h2)"
      using r c Inr a(1) by (simp add: tryBlock_store_def)
    moreover have "tryBlock w ms f anc s = (thr, s1, calls')"
      using r cv a(2) by (simp add: tryBlock_def)
    ultimately show ?thesis
      using extends_trans [OF e0 a(3)] a(4,5,6,7) by blast
  qed
qed

lemma catchBlock_store_result:
  assumes "wellFormed h" and "arrayAt h messages = Some refs" and "readObjects h refs = Some ms"
    and "extends h h1"
  shows "\<exists>out s2 later later' h2 withMarker marker.
      catchBlock_store w messages err k s h1 = Some (out, s2, later, h2)
    \<and> catchBlock w ms err k s = (out, s2, later')
    \<and> extends h1 h2
    \<and> sameCalls h2 later later'
    \<and> later = [ConsoleError ''Error during compaction:'' err,
                SetCompactionError (Some (errorText err)),
                SetMessages withMarker]
              @ (if out = Resolved then [SetIsCompacting False] else [])
    \<and> limit h \<le> withMarker \<and> limit h \<le> marker
    \<and> arrayAt h2 withMarker = Some (refs @ [marker])
    \<and> objectAt h2 marker = Some (errorMarker (dateNow_id w) (dateNow_created w))"
proof -
  let ?em = "errorMarker (dateNow_id w) (dateNow_created w)"
  obtain marker h1a where o: "newObject ?em h1 = (marker, h1a)"
    by (cases "newObject ?em h1")
  note no = newObject_extends [OF extends_wellFormed [OF assms(4)] o]
  have e1a: "extends h h1a" by (rule extends_trans [OF assms(4) no(1)])
  note live = live_preserved [OF assms(1,2,3) e1a]
  obtain a h2 where n: "newArray (refs @ [marker]) h1a = (a, h2)"
    by (cases "newArray (refs @ [marker]) h1a")
  note na = newArray_extends [OF extends_wellFormed [OF no(1)] n]
  have ext: "extends h1 h2" by (rule extends_trans [OF no(1) na(1)])
  have m2: "objectAt h2 marker = Some ?em"
    using no(4) na(5) by simp
  have "readObjects h2 refs = Some ms"
    using live(2) by (simp only: readObjects_Some_iff na(5))
  then have rd: "readObjects h2 (refs @ [marker]) = Some (ms @ [?em])"
    using m2 by (simp add: readObjects_Some_iff)
  have ra: "readArray h2 a = Some (ms @ [?em])"
    using na(4) rd by (simp add: readArray_def)
  have ge: "limit h \<le> a" "limit h \<le> marker"
    using na(2) no(2,3) extends_limit [OF assms(4)] by simp_all
  show ?thesis
  proof (cases "setMessages_does w k (ms @ [?em])")
    case Returns
    have "catchBlock_store w messages err k s h1 =
        Some (Resolved, s\<lparr>compactionError := Some (errorText err), isCompacting := False\<rparr>,
              [ConsoleError ''Error during compaction:'' err,
               SetCompactionError (Some (errorText err)),
               SetMessages a, SetIsCompacting False], h2)"
      using o live(1) n ra Returns by (simp add: catchBlock_store_def)
    moreover have "catchBlock w ms err k s =
        (Resolved, s\<lparr>compactionError := Some (errorText err), isCompacting := False\<rparr>,
         [ConsoleError ''Error during compaction:'' err,
          SetCompactionError (Some (errorText err)),
          SetMessages (ms @ [?em]), SetIsCompacting False])"
      using Returns by (simp add: catchBlock_def)
    moreover have "sameCalls h2
        [ConsoleError ''Error during compaction:'' err,
         SetCompactionError (Some (errorText err)),
         SetMessages a, SetIsCompacting False]
        [ConsoleError ''Error during compaction:'' err,
         SetCompactionError (Some (errorText err)),
         SetMessages (ms @ [?em]), SetIsCompacting False]"
      using ra by (simp add: sameCalls_def)
    moreover have "[ConsoleError ''Error during compaction:'' err,
               SetCompactionError (Some (errorText err)),
               SetMessages a, SetIsCompacting False] =
        [ConsoleError ''Error during compaction:'' err,
                SetCompactionError (Some (errorText err)),
                SetMessages a]
              @ (if Resolved = Resolved then [SetIsCompacting False] else [])"
      by simp
    ultimately show ?thesis
      using ext ge na(4) m2 by blast
  next
    case (Throws e)
    have "catchBlock_store w messages err k s h1 =
        Some (Rejected e, s\<lparr>compactionError := Some (errorText err)\<rparr>,
              [ConsoleError ''Error during compaction:'' err,
               SetCompactionError (Some (errorText err)),
               SetMessages a], h2)"
      using o live(1) n ra Throws by (simp add: catchBlock_store_def)
    moreover have "catchBlock w ms err k s =
        (Rejected e, s\<lparr>compactionError := Some (errorText err)\<rparr>,
         [ConsoleError ''Error during compaction:'' err,
          SetCompactionError (Some (errorText err)),
          SetMessages (ms @ [?em])])"
      using Throws by (simp add: catchBlock_def)
    moreover have "sameCalls h2
        [ConsoleError ''Error during compaction:'' err,
         SetCompactionError (Some (errorText err)),
         SetMessages a]
        [ConsoleError ''Error during compaction:'' err,
         SetCompactionError (Some (errorText err)),
         SetMessages (ms @ [?em])]"
      using ra by (simp add: sameCalls_def)
    moreover have "[ConsoleError ''Error during compaction:'' err,
               SetCompactionError (Some (errorText err)),
               SetMessages a] =
        [ConsoleError ''Error during compaction:'' err,
                SetCompactionError (Some (errorText err)),
                SetMessages a]
              @ (if Rejected e = Resolved then [SetIsCompacting False] else [])"
      by simp
    ultimately show ?thesis
      using ext ge na(4) m2 by blast
  qed
qed

lemma setMessagesCalls_append:
  "setMessagesCalls (tr @ tr') = setMessagesCalls tr @ setMessagesCalls tr'"
  by (induction tr rule: setMessagesCalls.induct) simp_all

lemma sameCalls_ConsoleError:
  "sameCalls h tr tr' \<Longrightarrow> ConsoleError x e \<in> set tr' \<Longrightarrow> ConsoleError x e \<in> set tr"
  unfolding sameCalls_def
proof (induction tr tr' rule: list_all2_induct)
  case Nil
  then show ?case by simp
next
  case (Cons a as b bs)
  then show ?case by (cases a; cases b) auto
qed

text \<open>
  The run over the store returns whenever the caller's array and its messages are
  live. It settles as the run over values does and makes the same calls: read in the
  final store, every address it passes holds the value that the other passes. It
  leaves the store it started from as it was, and the arrays it hands over are new.
\<close>

lemma performCompaction_store_result:
  assumes "wellFormed h" and "arrayAt h messages = Some refs" and "readObjects h refs = Some ms"
  shows "\<exists>out s' tr tr' h'.
      performCompaction_store w messages f isManual anc s h = Some (out, s', tr, h')
    \<and> performCompaction w ms f isManual anc s = (out, s', tr')
    \<and> extends h h'
    \<and> sameCalls h' tr tr'
    \<and> (\<forall>a. SetAncestorMessages a \<in> set tr \<longrightarrow>
          limit h \<le> a
          \<and> (\<exists>copies. arrayAt h' a = Some copies
                \<and> (\<forall>r \<in> set copies. limit h \<le> r)
                \<and> readObjects h' copies = Some (ancestorMessages ms)))
    \<and> (\<forall>a. SetMessages a \<in> set tr \<longrightarrow> limit h \<le> a)
    \<and> ((\<exists>x e. ConsoleError x e \<in> set tr) \<longrightarrow>
          (\<exists>marker. setMessagesCalls tr \<noteq> []
             \<and> arrayAt h' (last (setMessagesCalls tr)) = Some (refs @ [marker])
             \<and> limit h \<le> marker
             \<and> objectAt h' marker = Some (errorMarker (dateNow_id w) (dateNow_created w))))"
proof -
  let ?s0 = "s\<lparr>isCompacting := True, compactionError := None\<rparr>"
  let ?pre = "[SetIsCompacting True, SetCompactionError None,
       ManageContextFromBackend messages ''summarize'']"
  let ?pre' = "[SetIsCompacting True, SetCompactionError None,
       ManageContextFromBackend ms ''summarize'']"
  from tryBlock_store_result [OF assms, of w f anc ?s0]
  obtain thr s1 calls calls' h2 where
    ts: "tryBlock_store w messages f anc ?s0 h = Some (thr, s1, calls, h2)"
    and tv: "tryBlock w ms f anc ?s0 = (thr, s1, calls')"
    and e2: "extends h h2"
    and same: "sameCalls h2 calls calls'"
    and anc: "\<forall>a. SetAncestorMessages a \<in> set calls \<longrightarrow>
          limit h \<le> a
          \<and> (\<exists>copies. arrayAt h2 a = Some copies
                \<and> (\<forall>r \<in> set copies. limit h \<le> r)
                \<and> readObjects h2 copies = Some (ancestorMessages ms))"
    and sm: "\<forall>a. SetMessages a \<in> set calls \<longrightarrow> limit h \<le> a"
    and noce: "\<forall>x e. ConsoleError x e \<notin> set calls"
    by blast
  have wf2: "wellFormed h2" by (rule extends_wellFormed [OF e2])
  show ?thesis
  proof (cases thr)
    case None
    have run: "performCompaction_store w messages f isManual anc s h =
        Some (Resolved, s1, ?pre @ calls, h2)"
      using ts None by (simp add: performCompaction_store_def)
    have val: "performCompaction w ms f isManual anc s = (Resolved, s1, ?pre' @ calls')"
      using tv None by (simp add: performCompaction_completed)
    have "sameCalls h2 ?pre ?pre'"
      using live_preserved(3) [OF assms e2] by (simp add: sameCalls_def)
    then have sc: "sameCalls h2 (?pre @ calls) (?pre' @ calls')"
      using same by (rule sameCalls_append)
    have a: "\<forall>a. SetAncestorMessages a \<in> set (?pre @ calls) \<longrightarrow>
          limit h \<le> a
          \<and> (\<exists>copies. arrayAt h2 a = Some copies
                \<and> (\<forall>r \<in> set copies. limit h \<le> r)
                \<and> readObjects h2 copies = Some (ancestorMessages ms))"
      using anc by simp
    have b: "\<forall>a. SetMessages a \<in> set (?pre @ calls) \<longrightarrow> limit h \<le> a"
      using sm by simp
    have c: "\<not> (\<exists>x e. ConsoleError x e \<in> set (?pre @ calls))"
      using noce by simp
    from run val e2 sc a b c show ?thesis by blast
  next
    case (Some err)
    let ?k = "length (setMessagesCalls calls)"
    have k: "length (setMessagesCalls calls') = ?k"
      using sameCalls_setMessagesCalls [OF same] by simp
    from catchBlock_store_result [OF assms e2, of w err ?k s1]
    obtain out s2 later later' h3 withMarker marker where
      cs: "catchBlock_store w messages err ?k s1 h2 = Some (out, s2, later, h3)"
      and cv: "catchBlock w ms err ?k s1 = (out, s2, later')"
      and e3: "extends h2 h3"
      and same3: "sameCalls h3 later later'"
      and later: "later = [ConsoleError ''Error during compaction:'' err,
                SetCompactionError (Some (errorText err)),
                SetMessages withMarker]
              @ (if out = Resolved then [SetIsCompacting False] else [])"
      and ge: "limit h \<le> withMarker" "limit h \<le> marker"
      and arr3: "arrayAt h3 withMarker = Some (refs @ [marker])"
      and obj3: "objectAt h3 marker = Some (errorMarker (dateNow_id w) (dateNow_created w))"
      by blast
    have ext: "extends h h3" by (rule extends_trans [OF e2 e3])
    have run: "performCompaction_store w messages f isManual anc s h =
        Some (out, s2, ?pre @ calls @ later, h3)"
      using ts Some cs by (simp add: performCompaction_store_def)
    have val: "performCompaction w ms f isManual anc s = (out, s2, ?pre' @ calls' @ later')"
      using tv Some cv k
      by (simp add: performCompaction_def performCompaction_begin_def
          performCompaction_settled_def)
    have "sameCalls h3 ?pre ?pre'"
      using live_preserved(3) [OF assms ext] by (simp add: sameCalls_def)
    moreover have "sameCalls h3 calls calls'"
      by (rule sameCalls_extends [OF wf2 same e3])
    ultimately have sc: "sameCalls h3 (?pre @ calls @ later) (?pre' @ calls' @ later')"
      using same3 by (intro sameCalls_append)
    have a: "\<forall>a. SetAncestorMessages a \<in> set (?pre @ calls @ later) \<longrightarrow>
          limit h \<le> a
          \<and> (\<exists>copies. arrayAt h3 a = Some copies
                \<and> (\<forall>r \<in> set copies. limit h \<le> r)
                \<and> readObjects h3 copies = Some (ancestorMessages ms))"
    proof (intro allI impI)
      fix a assume "SetAncestorMessages a \<in> set (?pre @ calls @ later)"
      then have "SetAncestorMessages a \<in> set calls"
        unfolding later by auto
      with anc obtain copies where c: "limit h \<le> a" "arrayAt h2 a = Some copies"
        "\<forall>r \<in> set copies. limit h \<le> r" "readObjects h2 copies = Some (ancestorMessages ms)"
        by blast
      from live_preserved(1,2) [OF wf2 c(2,4) e3] c(1,3)
      show "limit h \<le> a
          \<and> (\<exists>copies. arrayAt h3 a = Some copies
                \<and> (\<forall>r \<in> set copies. limit h \<le> r)
                \<and> readObjects h3 copies = Some (ancestorMessages ms))"
        by blast
    qed
    have b: "\<forall>a. SetMessages a \<in> set (?pre @ calls @ later) \<longrightarrow> limit h \<le> a"
      using sm ge(1) unfolding later by auto
    have "setMessagesCalls (?pre @ calls @ later) = setMessagesCalls calls @ [withMarker]"
      unfolding later by (cases "out = Resolved") (simp_all add: setMessagesCalls_append)
    then have c: "setMessagesCalls (?pre @ calls @ later) \<noteq> []
        \<and> arrayAt h3 (last (setMessagesCalls (?pre @ calls @ later))) = Some (refs @ [marker])"
      using arr3 by simp
    from run val ext sc a b c ge(2) obj3 show ?thesis by blast
  qed
qed

lemma performCompaction_store_refines:
  assumes "wellFormed h"
    and "arrayAt h messages = Some refs"
    and "readObjects h refs = Some ms"
    and "performCompaction_store w messages f isManual anc s h = Some (out, s', tr, h')"
  shows "\<exists>tr'. performCompaction w ms f isManual anc s = (out, s', tr') \<and> sameCalls h' tr tr'"
  using performCompaction_store_result [OF assms(1,2,3), of w f isManual anc s] assms(4)
  by auto

section \<open>The marker predicate\<close>

text \<open>
  C4. \<open>hasCompactionMarker\<close> is true exactly when some content block of the message
  has type \<open>summarizationRequested\<close>: false on an empty content sequence, true as soon
  as any block of a longer one matches, whatever the other blocks are. It is a function
  of the message alone and touches neither the provider state nor any callback.
\<close>

theorem hasCompactionMarker_iff:
  "(hasCompactionMarker m \<longleftrightarrow> (\<exists>c \<in> set (content m). type c = ''summarizationRequested''))
   \<and> (content m = [] \<longrightarrow> \<not> hasCompactionMarker m)
   \<and> (content m = before @ c # after \<and> type c = ''summarizationRequested''
        \<longrightarrow> hasCompactionMarker m)"
  by (auto simp: hasCompactionMarker_def list_ex_iff)

theorem hasCompactionMarker_iff_witness:
  "hasCompactionMarker rawMarker
   \<and> \<not> hasCompactionMarker (textMessage ''user'' ''hello'' True True)
   \<and> \<not> hasCompactionMarker (rawMarker\<lparr>content := []\<rparr>)
   \<and> hasCompactionMarker
       (rawMarker\<lparr>content := [\<lparr>type = ''text'', msg = ''a''\<rparr>,
                               \<lparr>type = ''summarizationRequested'', msg = ''b''\<rparr>,
                               \<lparr>type = ''text'', msg = ''c''\<rparr>]\<rparr>)"
  using hasCompactionMarker_iff [of rawMarker "[]" "hd (content rawMarker)" "[]"]
    hasCompactionMarker_iff [of "textMessage ''user'' ''hello'' True True" "[]" undefined "[]"]
    hasCompactionMarker_iff [of "rawMarker\<lparr>content := []\<rparr>" "[]" undefined "[]"]
    hasCompactionMarker_iff
      [of "rawMarker\<lparr>content := [\<lparr>type = ''text'', msg = ''a''\<rparr>,
                               \<lparr>type = ''summarizationRequested'', msg = ''b''\<rparr>,
                               \<lparr>type = ''text'', msg = ''c''\<rparr>]\<rparr>"
          "[\<lparr>type = ''text'', msg = ''a''\<rparr>]"
          "\<lparr>type = ''summarizationRequested'', msg = ''b''\<rparr>"
          "[\<lparr>type = ''text'', msg = ''c''\<rparr>]"]
  by (simp add: rawMarker_def textMessage_def)

section \<open>Successful compaction\<close>

text \<open>
  C1. A compaction is successful when the backend resolves, every returned message
  converts, and the callbacks called on the way return. Then \<open>setMessages\<close> is called
  exactly once, with the list of converted messages and nothing else: one converted
  message per returned message, in order, the one at index 0 converted with
  \<open>(display, sendToLLM) = (true, false)\<close> and the ones at indices 1 and 2 with
  \<open>(false, true)\<close>. With a conversion that applies the flags it is given, these are the
  flags of the installed messages.
\<close>

theorem setMessages_on_success:
  assumes "summaryResponse w = Inr apiMessages"
    and "convertMessages (convertApiMessageToFrontendMessage w) 0 apiMessages = Inr converted"
    and "anc \<longrightarrow> setAncestorMessages_does w (ancestorMessages messages) = Returns"
    and "setMessages_does w 0 converted = Returns"
    and "appliesFlags (convertApiMessageToFrontendMessage w)"
    and "performCompaction w messages f isManual anc s = (out, s', tr)"
  shows "setMessagesCalls tr = [converted]
    \<and> length converted = length apiMessages
    \<and> (0 < length apiMessages \<longrightarrow>
         convertApiMessageToFrontendMessage w (apiMessages ! 0) True False = Inr (converted ! 0)
         \<and> display (converted ! 0) \<and> \<not> sendToLLM (converted ! 0))
    \<and> (1 < length apiMessages \<longrightarrow>
         convertApiMessageToFrontendMessage w (apiMessages ! 1) False True = Inr (converted ! 1)
         \<and> \<not> display (converted ! 1) \<and> sendToLLM (converted ! 1))
    \<and> (2 < length apiMessages \<longrightarrow>
         convertApiMessageToFrontendMessage w (apiMessages ! 2) False True = Inr (converted ! 2)
         \<and> \<not> display (converted ! 2) \<and> sendToLLM (converted ! 2))"
proof -
  have tr: "setMessagesCalls tr = [converted]"
    using assms(6) unfolding performCompaction_success [OF assms(1,2,3,4)] by auto
  have len: "length converted = length apiMessages"
    by (rule convertMessages_length [OF assms(2)])
  have conv: "k < length apiMessages \<Longrightarrow>
      convertApiMessageToFrontendMessage w (apiMessages ! k) (k = 0) (k \<noteq> 0) = Inr (converted ! k)"
    for k
    using convertMessages_nth [OF assms(2), of k] by (cases "k = 0") simp_all
  have flags: "k < length apiMessages \<Longrightarrow>
      display (converted ! k) = (k = 0) \<and> sendToLLM (converted ! k) = (k \<noteq> 0)" for k
    by (rule convertMessages_flags [OF assms(5,2)])
  show ?thesis
    using tr len conv [of 0] conv [of 1] conv [of 2] flags [of 0] flags [of 1] flags [of 2]
    by simp
qed

theorem setMessages_on_success_witness:
  "setMessagesCalls (snd (snd (performCompaction (sampleWorld 3) sampleMessages CallerAppend
       False True idle))) =
     [[rawMarker\<lparr>display := True, sendToLLM := False\<rparr>,
       textMessage ''user'' ''summary'' False True,
       textMessage ''assistant'' ''continue'' False True]]"
proof -
  let ?cs = "[rawMarker\<lparr>display := True, sendToLLM := False\<rparr>,
       textMessage ''user'' ''summary'' False True,
       textMessage ''assistant'' ''continue'' False True]"
  have r: "summaryResponse (sampleWorld 3) =
      Inr [rawMarker, textMessage ''user'' ''summary'' True True,
           textMessage ''assistant'' ''continue'' True True]"
    by (simp add: sampleWorld_def)
  have c: "convertMessages (convertApiMessageToFrontendMessage (sampleWorld 3)) 0
      [rawMarker, textMessage ''user'' ''summary'' True True,
       textMessage ''assistant'' ''continue'' True True] = Inr ?cs"
    using sampleWorld_converts by (simp add: sampleWorld_def)
  have a: "True \<longrightarrow> setAncestorMessages_does (sampleWorld 3) (ancestorMessages sampleMessages)
      = Returns"
    by (simp add: sampleWorld_def)
  have m: "setMessages_does (sampleWorld 3) 0 ?cs = Returns"
    by (simp add: sampleWorld_def)
  have fl: "appliesFlags (convertApiMessageToFrontendMessage (sampleWorld 3))"
    using appliesFlags_convertWithFlags by (simp add: sampleWorld_def)
  obtain out s' tr where
    p: "performCompaction (sampleWorld 3) sampleMessages CallerAppend False True idle = (out, s', tr)"
    by (cases "performCompaction (sampleWorld 3) sampleMessages CallerAppend False True idle")
  from setMessages_on_success [OF r c a m fl p] p show ?thesis by simp
qed

text \<open>
  C3. When \<open>setAncestorMessages\<close> is supplied and the compaction succeeds, it is called
  exactly once, with a snapshot that has one entry per input message; every entry has
  \<open>display = true\<close> and \<open>sendToLLM = false\<close> whatever the flags of the input were, and is
  otherwise the input message at the same position.
\<close>

theorem ancestor_snapshot:
  assumes "summaryResponse w = Inr apiMessages"
    and "convertMessages (convertApiMessageToFrontendMessage w) 0 apiMessages = Inr converted"
    and "performCompaction w messages f isManual True s = (out, s', tr)"
  shows "\<exists>snapshot. setAncestorMessagesCalls tr = [snapshot]
    \<and> length snapshot = length messages
    \<and> (\<forall>m \<in> set snapshot. display m \<and> \<not> sendToLLM m)
    \<and> (\<forall>i < length messages.
          snapshot ! i = (messages ! i)\<lparr>display := True, sendToLLM := False\<rparr>)"
proof -
  have "setAncestorMessagesCalls tr = [ancestorMessages messages]"
    using assms
    by (auto simp: performCompaction_def performCompaction_begin_def
        performCompaction_settled_def tryBlock_def afterConversion_def ancestorBlock_def
        catchBlock_def split: completion.splits option.splits)
  moreover have "length (ancestorMessages messages) = length messages"
    by (simp add: ancestorMessages_def)
  moreover have "\<forall>m \<in> set (ancestorMessages messages). display m \<and> \<not> sendToLLM m"
    by (auto simp: ancestorMessages_def)
  moreover have "\<forall>i < length messages.
      ancestorMessages messages ! i = (messages ! i)\<lparr>display := True, sendToLLM := False\<rparr>"
    by (simp add: ancestorMessages_def)
  ultimately show ?thesis by blast
qed

theorem ancestor_snapshot_witness:
  "setAncestorMessagesCalls (snd (snd (performCompaction (sampleWorld 3) sampleMessages
       CallerAppend False True idle))) =
     [[textMessage ''user'' ''hello'' True False,
       textMessage ''assistant'' ''hi'' True False,
       textMessage ''user'' ''more'' True False,
       textMessage ''assistant'' ''done'' True False]]"
proof -
  have r: "summaryResponse (sampleWorld 3) =
      Inr [rawMarker, textMessage ''user'' ''summary'' True True,
           textMessage ''assistant'' ''continue'' True True]"
    by (simp add: sampleWorld_def)
  have c: "convertMessages (convertApiMessageToFrontendMessage (sampleWorld 3)) 0
      [rawMarker, textMessage ''user'' ''summary'' True True,
       textMessage ''assistant'' ''continue'' True True] =
      Inr [rawMarker\<lparr>display := True, sendToLLM := False\<rparr>,
           textMessage ''user'' ''summary'' False True,
           textMessage ''assistant'' ''continue'' False True]"
    using sampleWorld_converts by (simp add: sampleWorld_def)
  obtain out s' tr where
    p: "performCompaction (sampleWorld 3) sampleMessages CallerAppend False True idle = (out, s', tr)"
    by (cases "performCompaction (sampleWorld 3) sampleMessages CallerAppend False True idle")
  from ancestor_snapshot [OF r c p] obtain snapshot where
    one: "setAncestorMessagesCalls tr = [snapshot]"
    and len: "length snapshot = length sampleMessages"
    and each: "\<forall>i < length sampleMessages.
        snapshot ! i = (sampleMessages ! i)\<lparr>display := True, sendToLLM := False\<rparr>"
    by blast
  have "snapshot = map (\<lambda>m. m\<lparr>display := True, sendToLLM := False\<rparr>) sampleMessages"
    using len each by (intro nth_equalityI) simp_all
  with one p show ?thesis
    by (simp add: sampleMessages_def textMessage_def)
qed

text \<open>
  C6. On a successful compaction (the backend resolves, the conversions and the
  callbacks return) exactly one timer is set, with delay 100, when the
  response has at least three messages, and none when it has fewer. The timer's
  callback runs \<open>append\<close> on the converted message at index 2, so that firing the timers
  makes exactly that one call of \<open>append\<close>; \<open>append\<close> is never called before. With
  fewer than three messages no call of \<open>append\<close> follows, the promise still resolves
  and no error is recorded.
\<close>

theorem continuation_appended_iff_three:
  assumes "summaryResponse w = Inr apiMessages"
    and "convertMessages (convertApiMessageToFrontendMessage w) 0 apiMessages = Inr converted"
    and "anc \<longrightarrow> setAncestorMessages_does w (ancestorMessages messages) = Returns"
    and "setMessages_does w 0 converted = Returns"
    and "performCompaction w messages CallerAppend isManual anc s = (out, s', tr)"
  shows "(3 \<le> length apiMessages \<longrightarrow>
            timeouts tr = [(CallerAppend, converted ! 2, 100)]
            \<and> fireTimers tr = [Append (converted ! 2)])
    \<and> (length apiMessages < 3 \<longrightarrow> timeouts tr = [] \<and> fireTimers tr = [])
    \<and> (\<forall>m. Append m \<notin> set tr)
    \<and> out = Resolved \<and> compactionError s' = None
    \<and> (\<forall>t e. ConsoleError t e \<notin> set tr)"
proof -
  have len: "length converted = length apiMessages"
    by (rule convertMessages_length [OF assms(2)])
  show ?thesis
    using assms(5) len unfolding performCompaction_success [OF assms(1,2,3,4)]
    by (auto simp: fireTimers_simps)
qed

theorem continuation_appended_iff_three_witness:
  "fireTimers (snd (snd (performCompaction (sampleWorld 3) sampleMessages CallerAppend
       False True idle))) = [Append (textMessage ''assistant'' ''continue'' False True)]
   \<and> timeouts (snd (snd (performCompaction (sampleWorld 3) sampleMessages CallerAppend
       False True idle))) = [(CallerAppend, textMessage ''assistant'' ''continue'' False True, 100)]
   \<and> fireTimers (snd (snd (performCompaction (sampleWorld 2) sampleMessages CallerAppend
       False True idle))) = []
   \<and> compactionError (fst (snd (performCompaction (sampleWorld 2) sampleMessages CallerAppend
       False True idle))) = None"
proof -
  have r3: "summaryResponse (sampleWorld 3) =
      Inr [rawMarker, textMessage ''user'' ''summary'' True True,
           textMessage ''assistant'' ''continue'' True True]"
    by (simp add: sampleWorld_def)
  have c3: "convertMessages (convertApiMessageToFrontendMessage (sampleWorld 3)) 0
      [rawMarker, textMessage ''user'' ''summary'' True True,
       textMessage ''assistant'' ''continue'' True True] =
      Inr [rawMarker\<lparr>display := True, sendToLLM := False\<rparr>,
           textMessage ''user'' ''summary'' False True,
           textMessage ''assistant'' ''continue'' False True]"
    using sampleWorld_converts by (simp add: sampleWorld_def)
  have r2: "summaryResponse (sampleWorld 2) =
      Inr [rawMarker, textMessage ''user'' ''summary'' True True]"
    by (simp add: sampleWorld_def)
  have c2: "convertMessages (convertApiMessageToFrontendMessage (sampleWorld 2)) 0
      [rawMarker, textMessage ''user'' ''summary'' True True] =
      Inr [rawMarker\<lparr>display := True, sendToLLM := False\<rparr>,
           textMessage ''user'' ''summary'' False True]"
    using sampleWorld_converts_two by (simp add: sampleWorld_def)
  have a3: "True \<longrightarrow> setAncestorMessages_does (sampleWorld 3)
      (ancestorMessages sampleMessages) = Returns"
    and a2: "True \<longrightarrow> setAncestorMessages_does (sampleWorld 2)
      (ancestorMessages sampleMessages) = Returns"
    and m3: "setMessages_does (sampleWorld 3) 0
      [rawMarker\<lparr>display := True, sendToLLM := False\<rparr>,
       textMessage ''user'' ''summary'' False True,
       textMessage ''assistant'' ''continue'' False True] = Returns"
    and m2: "setMessages_does (sampleWorld 2) 0
      [rawMarker\<lparr>display := True, sendToLLM := False\<rparr>,
       textMessage ''user'' ''summary'' False True] = Returns"
    by (simp_all add: sampleWorld_def)
  obtain out3 s3 tr3 where
    p3: "performCompaction (sampleWorld 3) sampleMessages CallerAppend False True idle =
      (out3, s3, tr3)"
    by (cases "performCompaction (sampleWorld 3) sampleMessages CallerAppend False True idle")
  obtain out2 s2 tr2 where
    p2: "performCompaction (sampleWorld 2) sampleMessages CallerAppend False True idle =
      (out2, s2, tr2)"
    by (cases "performCompaction (sampleWorld 2) sampleMessages CallerAppend False True idle")
  from continuation_appended_iff_three [OF r3 c3 a3 m3 p3]
    continuation_appended_iff_three [OF r2 c2 a2 m2 p2] p3 p2
  show ?thesis by simp
qed

text \<open>
  C9. When the response has more than three messages and the compaction is successful
  (the conversions and the callbacks return), every returned message from
  index 2 on is converted with \<open>(display, sendToLLM) = (false, true)\<close>, \<open>setMessages\<close>
  receives all of them (the list is as long as the response), and the only timer set
  is the one for the message at index 2.
\<close>

theorem longer_response_kept_whole:
  assumes "summaryResponse w = Inr apiMessages"
    and "convertMessages (convertApiMessageToFrontendMessage w) 0 apiMessages = Inr converted"
    and "anc \<longrightarrow> setAncestorMessages_does w (ancestorMessages messages) = Returns"
    and "setMessages_does w 0 converted = Returns"
    and "appliesFlags (convertApiMessageToFrontendMessage w)"
    and "3 < length apiMessages"
    and "performCompaction w messages f isManual anc s = (out, s', tr)"
  shows "(\<forall>k. 2 \<le> k \<and> k < length apiMessages \<longrightarrow>
            convertApiMessageToFrontendMessage w (apiMessages ! k) False True = Inr (converted ! k)
            \<and> \<not> display (converted ! k) \<and> sendToLLM (converted ! k))
    \<and> setMessagesCalls tr = [converted]
    \<and> length converted = length apiMessages
    \<and> timeouts tr = [(f, converted ! 2, 100)]"
proof -
  have len: "length converted = length apiMessages"
    by (rule convertMessages_length [OF assms(2)])
  have each: "convertApiMessageToFrontendMessage w (apiMessages ! k) False True = Inr (converted ! k)
      \<and> \<not> display (converted ! k) \<and> sendToLLM (converted ! k)"
    if "2 \<le> k" and "k < length apiMessages" for k
    using convertMessages_nth [OF assms(2) that(2)] convertMessages_flags [OF assms(5,2) that(2)]
      that(1)
    by simp
  have calls: "setMessagesCalls tr = [converted] \<and> timeouts tr = [(f, converted ! 2, 100)]"
    using assms(6,7) len unfolding performCompaction_success [OF assms(1,2,3,4)] by auto
  from each len calls show ?thesis by blast
qed

theorem longer_response_kept_whole_witness:
  "setMessagesCalls (snd (snd (performCompaction (sampleWorld 5) sampleMessages CallerAppend
       False False idle))) =
     [[rawMarker\<lparr>display := True, sendToLLM := False\<rparr>,
       textMessage ''user'' ''summary'' False True,
       textMessage ''assistant'' ''continue'' False True,
       textMessage ''assistant'' ''extra'' False True,
       textMessage ''assistant'' ''last'' False True]]
   \<and> timeouts (snd (snd (performCompaction (sampleWorld 5) sampleMessages CallerAppend
       False False idle))) = [(CallerAppend, textMessage ''assistant'' ''continue'' False True, 100)]"
proof -
  let ?as = "[rawMarker, textMessage ''user'' ''summary'' True True,
       textMessage ''assistant'' ''continue'' True True,
       textMessage ''assistant'' ''extra'' True True,
       textMessage ''assistant'' ''last'' True True]"
  have r: "summaryResponse (sampleWorld 5) = Inr ?as"
    by (simp add: sampleWorld_def)
  have c: "convertMessages (convertApiMessageToFrontendMessage (sampleWorld 5)) 0 ?as =
      Inr [rawMarker\<lparr>display := True, sendToLLM := False\<rparr>,
           textMessage ''user'' ''summary'' False True,
           textMessage ''assistant'' ''continue'' False True,
           textMessage ''assistant'' ''extra'' False True,
           textMessage ''assistant'' ''last'' False True]"
    using sampleWorld_converts_five by (simp add: sampleWorld_def)
  have fl: "appliesFlags (convertApiMessageToFrontendMessage (sampleWorld 5))"
    using appliesFlags_convertWithFlags by (simp add: sampleWorld_def)
  have a: "False \<longrightarrow> setAncestorMessages_does (sampleWorld 5)
      (ancestorMessages sampleMessages) = Returns"
    by simp
  have m: "setMessages_does (sampleWorld 5) 0
      [rawMarker\<lparr>display := True, sendToLLM := False\<rparr>,
       textMessage ''user'' ''summary'' False True,
       textMessage ''assistant'' ''continue'' False True,
       textMessage ''assistant'' ''extra'' False True,
       textMessage ''assistant'' ''last'' False True] = Returns"
    by (simp add: sampleWorld_def)
  have l: "3 < length ?as" by simp
  obtain out s' tr where
    p: "performCompaction (sampleWorld 5) sampleMessages CallerAppend False False idle = (out, s', tr)"
    by (cases "performCompaction (sampleWorld 5) sampleMessages CallerAppend False False idle")
  from longer_response_kept_whole [OF r c a m fl l p] p show ?thesis by simp
qed

section \<open>The entry points\<close>




text \<open>
  C7. When \<open>handleManualCompaction\<close> is given a \<open>clearAlerts\<close> callback, the callback
  is the first call of the run and it is called exactly once. When it returns, the
  state resets and the call of the backend follow it, so that it comes before the
  backend is called and before anything that happens once the backend has answered;
  when it throws, nothing follows it and the backend is never called.
\<close>

theorem clearAlerts_once_before_backend:
  assumes "handleManualCompaction w messages ap True anc s = (out, s', tr)"
  shows "\<exists>rest. tr = ClearAlerts # rest
    \<and> ClearAlerts \<notin> set rest
    \<and> count_list tr ClearAlerts = 1
    \<and> (clearAlerts_does w = Returns \<longrightarrow>
         (\<exists>rest'. rest = SetIsCompacting True # SetCompactionError None
            # ManageContextFromBackend messages ''summarize'' # rest'))
    \<and> (\<forall>e. clearAlerts_does w = Throws e \<longrightarrow> rest = [] \<and> out = Rejected e)"
proof (cases "clearAlerts_does w")
  case Returns
  let ?f = "if ap then CallerAppend else NoOpAppend"
  from performCompaction_shape [of w messages ?f True anc s] obtain out' rest where
    p: "performCompaction w messages ?f True anc s =
      (out', stateAfter ([SetIsCompacting True, SetCompactionError None,
           ManageContextFromBackend messages ''summarize''] @ rest) s,
       [SetIsCompacting True, SetCompactionError None,
        ManageContextFromBackend messages ''summarize''] @ rest)"
    and no: "ClearAlerts \<notin> set rest"
    by auto
  let ?rest = "SetIsCompacting True # SetCompactionError None
      # ManageContextFromBackend messages ''summarize'' # rest"
  have tr: "tr = ClearAlerts # ?rest"
    using assms p Returns by (simp add: handleManualCompaction_def)
  have no': "ClearAlerts \<notin> set ?rest"
    using no by simp
  then have "count_list ?rest ClearAlerts = 0"
    by (simp only: count_list_0_iff not_False_eq_True)
  then have "count_list tr ClearAlerts = 1"
    unfolding tr by simp
  with tr no' Returns show ?thesis by auto
next
  case (Throws e)
  from assms have "tr = [ClearAlerts]" and "out = Rejected e"
    unfolding handleManualCompaction_throws [OF Throws] by simp_all
  with Throws show ?thesis by simp
qed

theorem clearAlerts_once_before_backend_witness:
  "count_list (snd (snd (handleManualCompaction (sampleWorld 3) sampleMessages True True True
       idle))) ClearAlerts = 1
   \<and> hd (snd (snd (handleManualCompaction (sampleWorld 3) sampleMessages True True True
       idle))) = ClearAlerts
   \<and> take 3 (tl (snd (snd (handleManualCompaction (sampleWorld 3) sampleMessages True True True
       idle)))) = [SetIsCompacting True, SetCompactionError None,
         ManageContextFromBackend sampleMessages ''summarize'']
   \<and> snd (snd (handleManualCompaction alertsThrowWorld sampleMessages True True True idle))
       = [ClearAlerts]"
proof -
  obtain out s' tr where
    p: "handleManualCompaction (sampleWorld 3) sampleMessages True True True idle = (out, s', tr)"
    by (cases "handleManualCompaction (sampleWorld 3) sampleMessages True True True idle")
  obtain out2 s2 tr2 where
    q: "handleManualCompaction alertsThrowWorld sampleMessages True True True idle
      = (out2, s2, tr2)"
    by (cases "handleManualCompaction alertsThrowWorld sampleMessages True True True idle")
  have r: "clearAlerts_does (sampleWorld 3) = Returns"
    by (simp add: sampleWorld_def)
  have t: "clearAlerts_does alertsThrowWorld = Throws (ErrorObject ''alerts'')"
    by (simp add: alertsThrowWorld_def)
  from clearAlerts_once_before_backend [OF p] r
    clearAlerts_once_before_backend [OF q] t p q
  show ?thesis by auto
qed




section \<open>Failed compaction\<close>

text \<open>
  C2, as the claim states it, at two runs in which the backend rejects. In the first
  it rejects with an \<open>Error\<close> whose message is empty (\<open>new Error()\<close>): \<open>compactionError\<close>
  is the empty string afterwards, not a non-empty one. In the second \<open>setMessages\<close>
  throws when it is given the list with the error marker: \<open>isCompacting\<close> is still true
  afterwards.
\<close>

theorem empty_error_message_counterexample:
  "summaryResponse (rejectingWorld (ErrorObject [])) = Inl (ErrorObject [])
   \<and> compactionError (fst (snd (performCompaction (rejectingWorld (ErrorObject []))
         sampleMessages CallerAppend False False idle))) = Some []
   \<and> summaryResponse setMessagesThrowWorld = Inl (ErrorObject ''Network error'')
   \<and> isCompacting (fst (snd (performCompaction setMessagesThrowWorld
         sampleMessages CallerAppend False False idle))) = True"
  by (simp add: rejectingWorld_def setMessagesThrowWorld_def performCompaction_def
      performCompaction_begin_def performCompaction_settled_def tryBlock_def catchBlock_def
      errorText_def)

text \<open>
  C2, amended. When the backend rejects, or a conversion throws, \<open>setMessages\<close> is
  called exactly once, with the input sequence followed by one error marker: a message
  with role \<open>assistant\<close>, a single content block of type \<open>summarizationRequested\<close>,
  \<open>display = true\<close> and \<open>sendToLLM = false\<close>. Afterwards \<open>compactionError\<close> is a string:
  the message of the thrown value when that is an \<open>Error\<close>, and
  \<open>Unknown error during compaction\<close> otherwise. It is non-empty unless the thrown value
  is an \<open>Error\<close> with an empty message. When that call of \<open>setMessages\<close> returns, the
  promise resolves and \<open>isCompacting\<close> is false afterwards; when it throws, the promise
  rejects with what it threw and \<open>isCompacting\<close> stays true.
\<close>

theorem failure_preserves_history:
  assumes "summaryResponse w = Inl err
     \<or> (\<exists>apiMessages. summaryResponse w = Inr apiMessages
          \<and> convertMessages (convertApiMessageToFrontendMessage w) 0 apiMessages = Inl err)"
    and "performCompaction w messages f isManual anc s = (out, s', tr)"
  shows "\<exists>marker. setMessagesCalls tr = [messages @ [marker]]
    \<and> role marker = ''assistant''
    \<and> (\<exists>c. content marker = [c] \<and> type c = ''summarizationRequested'')
    \<and> display marker \<and> \<not> sendToLLM marker
    \<and> compactionError s' =
         Some (case err of ErrorObject m \<Rightarrow> m | OtherThrown \<Rightarrow> ''Unknown error during compaction'')
    \<and> (err \<noteq> ErrorObject [] \<longrightarrow> (\<exists>e. compactionError s' = Some e \<and> e \<noteq> []))
    \<and> (setMessages_does w 0 (messages @ [marker]) = Returns \<longrightarrow>
          out = Resolved \<and> isCompacting s' = False)
    \<and> (\<forall>e. setMessages_does w 0 (messages @ [marker]) = Throws e \<longrightarrow>
          out = Rejected e \<and> isCompacting s' = True)"
proof -
  let ?marker = "errorMarker (dateNow_id w) (dateNow_created w)"
  have calls: "setMessagesCalls tr = [messages @ [?marker]]"
    and st: "compactionError s' = Some (errorText err)"
    and ret: "setMessages_does w 0 (messages @ [?marker]) = Returns \<longrightarrow>
          out = Resolved \<and> isCompacting s' = False"
    and thr: "\<forall>e. setMessages_does w 0 (messages @ [?marker]) = Throws e \<longrightarrow>
          out = Rejected e \<and> isCompacting s' = True"
    using assms(2) unfolding performCompaction_failure [OF assms(1)]
    by (auto split: completion.splits)
  have shape: "role ?marker = ''assistant''"
    "\<exists>c. content ?marker = [c] \<and> type c = ''summarizationRequested''"
    "display ?marker" "\<not> sendToLLM ?marker"
    by (simp_all add: errorMarker_def)
  have text_eq: "errorText err =
      (case err of ErrorObject m \<Rightarrow> m | OtherThrown \<Rightarrow> ''Unknown error during compaction'')"
    by (simp add: errorText_def)
  have nonempty: "err \<noteq> ErrorObject [] \<longrightarrow> errorText err \<noteq> []"
    by (cases err) (simp_all add: errorText_def)
  show ?thesis
    using calls st ret thr shape text_eq nonempty
    by (intro exI [of _ ?marker]) simp
qed

theorem failure_preserves_history_witness:
  "setMessagesCalls (snd (snd (performCompaction (rejectingWorld (ErrorObject ''Network error''))
       sampleMessages CallerAppend False True idle))) =
     [sampleMessages @ [errorMarker 1700000200123 1700000200124]]
   \<and> compactionError (fst (snd (performCompaction (rejectingWorld (ErrorObject ''Network error''))
       sampleMessages CallerAppend False True idle))) = Some ''Network error''
   \<and> isCompacting (fst (snd (performCompaction (rejectingWorld (ErrorObject ''Network error''))
       sampleMessages CallerAppend False True idle))) = False"
proof -
  let ?w = "rejectingWorld (ErrorObject ''Network error'')"
  have r: "summaryResponse ?w = Inl (ErrorObject ''Network error'')
      \<or> (\<exists>apiMessages. summaryResponse ?w = Inr apiMessages
           \<and> convertMessages (convertApiMessageToFrontendMessage ?w) 0 apiMessages
               = Inl (ErrorObject ''Network error''))"
    by (simp add: rejectingWorld_def)
  have ret: "setMessages_does ?w 0 ms = Returns" for ms
    by (simp add: rejectingWorld_def)
  obtain out s' tr where
    p: "performCompaction ?w sampleMessages CallerAppend False True idle = (out, s', tr)"
    by (cases "performCompaction ?w sampleMessages CallerAppend False True idle")
  from failure_preserves_history [OF r p] ret obtain marker where
    calls: "setMessagesCalls tr = [sampleMessages @ [marker]]"
    and st: "isCompacting s' = False" "compactionError s' = Some ''Network error''"
    by auto
  have "setMessagesCalls tr =
      [sampleMessages @ [errorMarker 1700000200123 1700000200124]]"
    using p by (auto simp: performCompaction_def performCompaction_begin_def
        performCompaction_settled_def tryBlock_def catchBlock_def rejectingWorld_def)
  with st p show ?thesis by simp
qed

section \<open>The caller's messages\<close>

text \<open>
  C10. \<open>performCompaction\<close> changes neither the caller's array of messages nor any
  message object in it, whether the compaction succeeds or fails: after the run every
  object and every array of the store it started from is as it was. The snapshot
  given to \<open>setAncestorMessages\<close> is a new array holding only new objects, one copy per
  input message with the two flags set. Every array given to \<open>setMessages\<close> is new; on
  the failure path it holds the references of the caller's array, unchanged, followed
  by the new error marker. The run returns from every store in which the caller's
  array and its messages are live.
\<close>

theorem caller_messages_never_mutated:
  assumes "wellFormed h"
    and "arrayAt h messages = Some refs"
    and "readObjects h refs = Some ms"
  shows "\<exists>out s' tr h'.
      performCompaction_store w messages f isManual anc s h = Some (out, s', tr, h')
    \<and> (\<forall>a. a \<in> dom (objectAt h) \<longrightarrow> objectAt h' a = objectAt h a)
    \<and> (\<forall>a. a \<in> dom (arrayAt h) \<longrightarrow> arrayAt h' a = arrayAt h a)
    \<and> arrayAt h' messages = Some refs
    \<and> readObjects h' refs = Some ms
    \<and> (\<forall>a. SetAncestorMessages a \<in> set tr \<longrightarrow>
          a \<notin> dom (arrayAt h)
          \<and> (\<exists>copies. arrayAt h' a = Some copies
                \<and> (\<forall>r \<in> set copies. r \<notin> dom (objectAt h))
                \<and> readObjects h' copies = Some (ancestorMessages ms)))
    \<and> (\<forall>a. SetMessages a \<in> set tr \<longrightarrow> a \<notin> dom (arrayAt h))
    \<and> (\<forall>err. summaryResponse w = Inl err
          \<or> (\<exists>apiMessages. summaryResponse w = Inr apiMessages
               \<and> convertMessages (convertApiMessageToFrontendMessage w) 0 apiMessages = Inl err)
          \<longrightarrow> (\<exists>a marker. setMessagesCalls tr = [a]
                \<and> arrayAt h' a = Some (refs @ [marker])
                \<and> marker \<notin> dom (objectAt h)
                \<and> objectAt h' marker
                    = Some (errorMarker (dateNow_id w) (dateNow_created w))))
    \<and> ((\<exists>x e. ConsoleError x e \<in> set tr) \<longrightarrow>
          (\<exists>a marker. setMessagesCalls tr \<noteq> [] \<and> last (setMessagesCalls tr) = a
             \<and> arrayAt h' a = Some (refs @ [marker])
             \<and> marker \<notin> dom (objectAt h)
             \<and> objectAt h' marker
                 = Some (errorMarker (dateNow_id w) (dateNow_created w))))"
proof -
  from performCompaction_store_result [OF assms, of w f isManual anc s]
  obtain out s' tr tr' h' where
    run: "performCompaction_store w messages f isManual anc s h = Some (out, s', tr, h')"
    and val: "performCompaction w ms f isManual anc s = (out, s', tr')"
    and ext: "extends h h'"
    and same: "sameCalls h' tr tr'"
    and anc: "\<forall>a. SetAncestorMessages a \<in> set tr \<longrightarrow>
          limit h \<le> a
          \<and> (\<exists>copies. arrayAt h' a = Some copies
                \<and> (\<forall>r \<in> set copies. limit h \<le> r)
                \<and> readObjects h' copies = Some (ancestorMessages ms))"
    and sm: "\<forall>a. SetMessages a \<in> set tr \<longrightarrow> limit h \<le> a"
    and caught: "(\<exists>x e. ConsoleError x e \<in> set tr) \<longrightarrow>
          (\<exists>marker. setMessagesCalls tr \<noteq> []
             \<and> arrayAt h' (last (setMessagesCalls tr)) = Some (refs @ [marker])
             \<and> limit h \<le> marker
             \<and> objectAt h' marker = Some (errorMarker (dateNow_id w) (dateNow_created w)))"
    by blast
  note fresh = fresh_not_in_dom [OF assms(1)]
  have objs: "\<forall>a. a \<in> dom (objectAt h) \<longrightarrow> objectAt h' a = objectAt h a"
    using old_below_limit [OF assms(1)] extends_objectAt [OF ext] by blast
  have arrs: "\<forall>a. a \<in> dom (arrayAt h) \<longrightarrow> arrayAt h' a = arrayAt h a"
    using old_below_limit [OF assms(1)] extends_arrayAt [OF ext] by blast
  note live = live_preserved [OF assms ext]
  have ancs: "\<forall>a. SetAncestorMessages a \<in> set tr \<longrightarrow>
          a \<notin> dom (arrayAt h)
          \<and> (\<exists>copies. arrayAt h' a = Some copies
                \<and> (\<forall>r \<in> set copies. r \<notin> dom (objectAt h))
                \<and> readObjects h' copies = Some (ancestorMessages ms))"
  proof (intro allI impI)
    fix a assume "SetAncestorMessages a \<in> set tr"
    with anc obtain copies where c: "limit h \<le> a" "arrayAt h' a = Some copies"
      "\<forall>r \<in> set copies. limit h \<le> r" "readObjects h' copies = Some (ancestorMessages ms)"
      by blast
    have "a \<notin> dom (arrayAt h)" using fresh [OF c(1)] by simp
    moreover have "\<forall>r \<in> set copies. r \<notin> dom (objectAt h)"
      using c(3) fresh by blast
    ultimately show "a \<notin> dom (arrayAt h)
          \<and> (\<exists>copies. arrayAt h' a = Some copies
                \<and> (\<forall>r \<in> set copies. r \<notin> dom (objectAt h))
                \<and> readObjects h' copies = Some (ancestorMessages ms))"
      using c(2,4) by blast
  qed
  have sets: "\<forall>a. SetMessages a \<in> set tr \<longrightarrow> a \<notin> dom (arrayAt h)"
    using sm fresh by blast
  have caught': "(\<exists>x e. ConsoleError x e \<in> set tr) \<longrightarrow>
          (\<exists>a marker. setMessagesCalls tr \<noteq> [] \<and> last (setMessagesCalls tr) = a
             \<and> arrayAt h' a = Some (refs @ [marker])
             \<and> marker \<notin> dom (objectAt h)
             \<and> objectAt h' marker
                 = Some (errorMarker (dateNow_id w) (dateNow_created w)))"
    using caught fresh by blast
  have fail: "\<exists>a marker. setMessagesCalls tr = [a]
                \<and> arrayAt h' a = Some (refs @ [marker])
                \<and> marker \<notin> dom (objectAt h)
                \<and> objectAt h' marker
                    = Some (errorMarker (dateNow_id w) (dateNow_created w))"
    if f: "summaryResponse w = Inl err
          \<or> (\<exists>apiMessages. summaryResponse w = Inr apiMessages
               \<and> convertMessages (convertApiMessageToFrontendMessage w) 0 apiMessages = Inl err)"
    for err
  proof -
    from val have tr': "length (setMessagesCalls tr') = 1
        \<and> ConsoleError ''Error during compaction:'' err \<in> set tr'"
      unfolding performCompaction_failure [OF f] by (auto split: completion.splits)
    then have one: "length (setMessagesCalls tr) = 1"
      using sameCalls_setMessagesCalls [OF same] by simp
    have "ConsoleError ''Error during compaction:'' err \<in> set tr"
      using sameCalls_ConsoleError [OF same] tr' by blast
    with caught' obtain a marker where
      c: "last (setMessagesCalls tr) = a" "arrayAt h' a = Some (refs @ [marker])"
        "marker \<notin> dom (objectAt h)"
        "objectAt h' marker = Some (errorMarker (dateNow_id w) (dateNow_created w))"
      by blast
    from one obtain b where "setMessagesCalls tr = [b]"
      by (cases "setMessagesCalls tr") auto
    with c show ?thesis by auto
  qed
  from run objs arrs live(1,2) ancs sets fail caught' show ?thesis by blast
qed

theorem caller_messages_never_mutated_witness:
  "(case performCompaction_store (rejectingWorld OtherThrown) 4 CallerAppend False True idle
          sampleStore of
      None \<Rightarrow> False
    | Some (out, s', tr, h') \<Rightarrow>
        arrayAt h' 4 = Some [0, 1, 2, 3]
        \<and> readObjects h' [0, 1, 2, 3] = Some sampleMessages
        \<and> setMessagesCalls tr = [6]
        \<and> arrayAt h' 6 = Some [0, 1, 2, 3, 5])
   \<and> (case performCompaction_store (sampleWorld 3) 4 CallerAppend False True idle
          sampleStore of
      None \<Rightarrow> False
    | Some (out, s', tr, h') \<Rightarrow>
        arrayAt h' 4 = Some [0, 1, 2, 3]
        \<and> readObjects h' [0, 1, 2, 3] = Some sampleMessages
        \<and> setAncestorMessagesCalls tr = [13]
        \<and> arrayAt h' 13 = Some [9, 10, 11, 12])"
proof -
  have a: "arrayAt sampleStore 4 = Some [0, 1, 2, 3]"
    by (simp add: sampleStore_def)
  have r: "readObjects sampleStore [0, 1, 2, 3] = Some sampleMessages"
    by (simp add: sampleStore_def sampleMessages_def)
  from caller_messages_never_mutated [OF sampleStore_wellFormed a r,
      of "rejectingWorld OtherThrown" CallerAppend False True idle]
  obtain out s' tr h' where
    p: "performCompaction_store (rejectingWorld OtherThrown) 4 CallerAppend False True idle
        sampleStore = Some (out, s', tr, h')"
    and keep: "arrayAt h' 4 = Some [0, 1, 2, 3]" "readObjects h' [0, 1, 2, 3] = Some sampleMessages"
    by blast
  have p': "performCompaction_store (rejectingWorld OtherThrown) 4 CallerAppend False True idle
        sampleStore = Some (out, s', tr, h') \<longrightarrow>
      setMessagesCalls tr = [6] \<and> arrayAt h' 6 = Some [0, 1, 2, 3, 5]"
    by (auto simp: performCompaction_store_def tryBlock_store_def catchBlock_store_def
        rejectingWorld_def readArray_def newObject_def newArray_def sampleStore_def
        split: option.splits completion.splits)
  from caller_messages_never_mutated [OF sampleStore_wellFormed a r,
      of "sampleWorld 3" CallerAppend False True idle]
  obtain out2 s2 tr2 h2 where
    q: "performCompaction_store (sampleWorld 3) 4 CallerAppend False True idle
        sampleStore = Some (out2, s2, tr2, h2)"
    and keep2: "arrayAt h2 4 = Some [0, 1, 2, 3]"
      "readObjects h2 [0, 1, 2, 3] = Some sampleMessages"
    by blast
  have q': "performCompaction_store (sampleWorld 3) 4 CallerAppend False True idle
        sampleStore = Some (out2, s2, tr2, h2) \<longrightarrow>
      setAncestorMessagesCalls tr2 = [13] \<and> arrayAt h2 13 = Some [9, 10, 11, 12]"
    by (auto simp: performCompaction_store_def tryBlock_store_def afterConversion_store_def
        ancestorBlock_store_def sampleWorld_def readArray_def ancestorMessages_def at_index_def
        convertWithFlags_def rawMarker_def textMessage_def
        newObject_def newArray_def sampleStore_def sampleMessages_def)
  from p p' keep q q' keep2 show ?thesis by simp
qed

end
